theory Spec2Isabelle
  imports Complex_Main "HOL-Library.Log_Nat" "HOL-Library.List_Lexorder" "HOL-Library.Multiset"
begin

section \<open>Strings\<close>

text \<open>
  A Python \<^verbatim>\<open>str\<close> is a sequence of Unicode code points: \<^verbatim>\<open>len\<close>, slicing and
  comparison all work on code points. The tree glyphs are outside Latin-1, so a string is
  modelled as the list of its code points; \<open>ustr\<close> embeds an ASCII literal. The order
  on strings is the lexicographic order on code points, as Python's \<^verbatim>\<open><\<close> on
  \<^verbatim>\<open>str\<close>.
\<close>

type_synonym ustring = "nat list"

definition ustr :: "string \<Rightarrow> ustring" where
  "ustr s = map of_char s"

text \<open>
  The whitespace of \<^verbatim>\<open>str.strip()\<close>, \<^verbatim>\<open>str.isspace()\<close> and of \<^verbatim>\<open>\s\<close> in a \<^verbatim>\<open>str\<close>
  pattern: the code points for which CPython's \<^verbatim>\<open>Py_UNICODE_ISSPACE\<close> holds.
\<close>

definition isspace :: "nat \<Rightarrow> bool" where
  "isspace c =
     ((9 \<le> c \<and> c \<le> 13) \<or> (28 \<le> c \<and> c \<le> 32) \<or> c = 133 \<or> c = 160 \<or> c = 5760 \<or>
      (8192 \<le> c \<and> c \<le> 8202) \<or> c = 8232 \<or> c = 8233 \<or> c = 8239 \<or> c = 8287 \<or>
      c = 12288)"

definition strip :: "ustring \<Rightarrow> ustring" where
  "strip s = rev (dropWhile isspace (rev (dropWhile isspace s)))"

definition rstrip_slash :: "ustring \<Rightarrow> ustring" where
  \<comment> \<open>\<^verbatim>\<open>s.rstrip("/")\<close>: every trailing slash goes\<close>
  "rstrip_slash s = rev (dropWhile (\<lambda>c. c = 47) (rev s))"

definition startswith :: "ustring \<Rightarrow> ustring \<Rightarrow> bool" where
  "startswith s p = (take (length p) s = p)"

definition endswith :: "ustring \<Rightarrow> ustring \<Rightarrow> bool" where
  "endswith s p = (length p \<le> length s \<and> drop (length s - length p) s = p)"

text \<open>\<^verbatim>\<open>str(n)\<close> and \<^verbatim>\<open>f"{n}"\<close> for a non-negative integer.\<close>

fun decimal :: "nat \<Rightarrow> ustring" where
  "decimal n = (if n < 10 then [48 + n] else decimal (n div 10) @ [48 + n mod 10])"

declare decimal.simps [simp del]

text \<open>\<^verbatim>\<open>sep.join(xs)\<close>.\<close>

fun join :: "ustring \<Rightarrow> ustring list \<Rightarrow> ustring" where
  "join sep [] = []"
| "join sep [x] = x"
| "join sep (x # y # ys) = x @ sep @ join sep (y # ys)"

text \<open>The four glyph groups of the rendering, each four code points wide.\<close>

definition branch :: ustring where
  \<comment> \<open>U+251C U+2500 U+2500 and a space\<close>
  "branch = [9500, 9472, 9472, 32]"

definition corner :: ustring where
  \<comment> \<open>U+2514 U+2500 U+2500 and a space\<close>
  "corner = [9492, 9472, 9472, 32]"

definition bar :: ustring where
  \<comment> \<open>U+2502 and three spaces\<close>
  "bar = [9474, 32, 32, 32]"

definition blank :: ustring where
  "blank = [32, 32, 32, 32]"

section \<open>Numbers\<close>

text \<open>
  \<^verbatim>\<open>size_bytes\<close> starts as a Python \<^verbatim>\<open>int\<close> (a byte count, never negative) and becomes
  a \<^verbatim>\<open>float\<close> at the first \<^verbatim>\<open>/= 1024\<close>. A float is an IEEE binary64 value, modelled
  by the rational it denotes; \<open>round_double\<close> rounds a non-negative rational to the nearest
  binary64 value, ties to even, with the fixed quantum of the subnormal range below
  \<open>2\<^sup>-\<^sup>1\<^sup>0\<^sup>2\<^sup>2\<close>, and fails where Python raises \<^verbatim>\<open>OverflowError\<close>.
\<close>

datatype py_error = ValueError | OverflowError

datatype number = PyInt nat | PyFloat rat

definition round_half_even :: "rat \<Rightarrow> int" where
  "round_half_even x =
     (let f = \<lfloor>x\<rfloor>; d = x - of_int f
      in if d < 1 / 2 then f
         else if 1 / 2 < d then f + 1
         else if even f then f else f + 1)"

definition ilog2 :: "rat \<Rightarrow> int" where
  \<comment> \<open>the binary exponent of a positive rational: \<open>2 powi e \<le> q < 2 powi (e + 1)\<close>\<close>
  "ilog2 q =
     (if 1 \<le> q then bitlen \<lfloor>q\<rfloor> - 1
      else - bitlen (\<lceil>1 / q\<rceil> - 1))"

definition round_double :: "rat \<Rightarrow> py_error + rat" where
  "round_double q =
     (if q = 0 then Inr 0
      else let e = max (ilog2 q) (- 1022);
               quantum = 2 powi (e - 52);
               r = of_int (round_half_even (q / quantum)) * quantum
           in if 2 ^ 1024 \<le> r then Inl OverflowError else Inr r)"

definition truediv_1024 :: "number \<Rightarrow> py_error + number" where
  \<comment> \<open>\<^verbatim>\<open>size_bytes / 1024\<close>: the correctly rounded quotient, for \<^verbatim>\<open>int / int\<close> too\<close>
  "truediv_1024 v =
     (case round_double ((case v of PyInt n \<Rightarrow> of_nat n | PyFloat x \<Rightarrow> x) / 1024) of
        Inl e \<Rightarrow> Inl e
      | Inr r \<Rightarrow> Inr (PyFloat r))"

definition ge_1024 :: "number \<Rightarrow> bool" where
  "ge_1024 v = (case v of PyInt n \<Rightarrow> 1024 \<le> n | PyFloat x \<Rightarrow> 1024 \<le> x)"

definition to_float :: "number \<Rightarrow> py_error + rat" where
  \<comment> \<open>the conversion the \<^verbatim>\<open>f\<close> presentation type applies to an \<^verbatim>\<open>int\<close>\<close>
  "to_float v = (case v of PyInt n \<Rightarrow> round_double (of_nat n) | PyFloat x \<Rightarrow> Inr x)"

definition format_2f :: "rat \<Rightarrow> ustring" where
  \<comment> \<open>\<^verbatim>\<open>f"{x:.2f}"\<close> for a float \<open>x \<ge> 0\<close>: the exact value, correctly rounded to two
      decimals, ties to even\<close>
  "format_2f x =
     (let h = nat (round_half_even (x * 100))
      in decimal (h div 100) @ [46, 48 + h mod 100 div 10, 48 + h mod 10])"

section \<open>FolderScanner._format_size\<close>

definition size_names :: "ustring list" where
  "size_names = [ustr ''B'', ustr ''KB'', ustr ''MB'', ustr ''GB'', ustr ''TB'']"

fun list_index :: "'a list \<Rightarrow> 'a \<Rightarrow> nat option" where
  \<comment> \<open>\<^verbatim>\<open>xs.index(x)\<close>; \<open>None\<close> where Python raises \<^verbatim>\<open>ValueError\<close>\<close>
  "list_index [] x = None"
| "list_index (y # ys) x = (if y = x then Some 0 else map_option Suc (list_index ys x))"

text \<open>The \<^verbatim>\<open>while size_bytes >= 1024 and i < len(size_names) - 1\<close> loop of the auto mode.\<close>

function auto_loop :: "number \<Rightarrow> nat \<Rightarrow> py_error + number \<times> nat" where
  "auto_loop v i =
     (if ge_1024 v \<and> int i < int (length size_names) - 1 then
        (case truediv_1024 v of
           Inl e \<Rightarrow> Inl e
         | Inr v' \<Rightarrow> auto_loop v' (i + 1))
      else Inr (v, i))"
  by pat_completeness auto
termination
  by (relation "measure (\<lambda>(v, i). length size_names - i)") auto

declare auto_loop.simps [simp del]

text \<open>The \<^verbatim>\<open>for _ in range(index): size_bytes /= 1024\<close> loop of an explicit unit.\<close>

fun divide_times :: "nat \<Rightarrow> number \<Rightarrow> py_error + number" where
  "divide_times 0 v = Inr v"
| "divide_times (Suc k) v =
     (case truediv_1024 v of
        Inl e \<Rightarrow> Inl e
      | Inr v' \<Rightarrow> divide_times k v')"

definition render_2f :: "number \<Rightarrow> ustring \<Rightarrow> py_error + ustring" where
  \<comment> \<open>\<^verbatim>\<open>f"{size_bytes:.2f} {unit}"\<close>\<close>
  "render_2f v unit =
     (case to_float v of
        Inl e \<Rightarrow> Inl e
      | Inr x \<Rightarrow> Inr (format_2f x @ ustr '' '' @ unit))"

definition format_size :: "nat \<Rightarrow> ustring \<Rightarrow> py_error + ustring" where
  "format_size size_bytes format_type =
     (if format_type = ustr ''bytes'' then Inr (decimal size_bytes @ ustr '' B'')
      else if size_bytes = 0 then Inr (ustr ''0 B'')
      else if format_type = ustr ''auto'' then
        (case auto_loop (PyInt size_bytes) 0 of
           Inl e \<Rightarrow> Inl e
         | Inr (v, i) \<Rightarrow> render_2f v (size_names ! i))
      else
        (case list_index size_names format_type of
           None \<Rightarrow> Inl ValueError
         | Some index \<Rightarrow>
             (case divide_times index (PyInt size_bytes) of
                Inl e \<Rightarrow> Inl e
              | Inr v \<Rightarrow> render_2f v format_type)))"

section \<open>The file system\<close>

text \<open>
  What the scanner can observe of the tree below its root. An entry of a directory listing
  is either something \<^verbatim>\<open>os.path.isdir\<close> denies (a \<open>File\<close>, with the result of
  \<^verbatim>\<open>os.path.getsize\<close>, \<open>None\<close> where it raises) or a directory (\<open>Dir\<close>), with what
  \<^verbatim>\<open>os.listdir\<close> does on it: it returns the entries in some order, or it raises
  \<^verbatim>\<open>PermissionError\<close>, or it raises another exception \<open>e\<close> with the text \<^verbatim>\<open>str(e)\<close>.
  The scanner only ever calls \<^verbatim>\<open>os.listdir\<close> on its root, so a root is a \<open>dirlist\<close>: a
  missing path or a regular file is an \<open>OSError\<close> there.
\<close>

datatype fsobj = File "nat option" | Dir dirlist
  and dirlist = Entries "(ustring \<times> fsobj) list" | PermissionError | OSError ustring

text \<open>
  \<^verbatim>\<open>_get_dir_size\<close>: \<^verbatim>\<open>os.walk\<close> skips a directory it cannot list, and a file whose
  size cannot be read is passed over.
\<close>

fun file_size :: "nat option \<Rightarrow> nat" where
  "file_size None = 0"
| "file_size (Some n) = n"

fun get_dir_size :: "dirlist \<Rightarrow> nat"
  and get_obj_size :: "fsobj \<Rightarrow> nat" where
  "get_dir_size (Entries items) = sum_list (map (\<lambda>item. get_obj_size (snd item)) items)"
| "get_dir_size PermissionError = 0"
| "get_dir_size (OSError msg) = 0"
| "get_obj_size (File sz) = file_size sz"
| "get_obj_size (Dir l) = get_dir_size l"

section \<open>FolderScanner._scan_directory\<close>

record scan_args =
  include_files :: bool
  max_depth :: "int option"
  show_size :: bool
  size_format :: ustring

text \<open>
  The walk threads two things: the \<^verbatim>\<open>result\<close> list it appends to, and how many times it
  has asked \<^verbatim>\<open>stop_event.is_set()\<close>. The event belongs to the scanner object and is set
  and cleared by other threads; all the walk sees of it is the answer to each of its
  checks. So the event is given as \<open>stop_event\<close>, the function from the number of a
  check to the answer this check gets.
\<close>

record walk =
  result :: "ustring list"
  checks :: nat

definition stop_is_set :: "(nat \<Rightarrow> bool) \<Rightarrow> walk \<Rightarrow> bool" where
  "stop_is_set stop_event w = stop_event (checks w)"

definition tick :: "walk \<Rightarrow> walk" where
  "tick w = w\<lparr>checks := Suc (checks w)\<rparr>"

definition emit :: "ustring \<Rightarrow> walk \<Rightarrow> walk" where
  \<comment> \<open>\<^verbatim>\<open>result.append(line)\<close>\<close>
  "emit line w = w\<lparr>result := result w @ [line]\<rparr>"

text \<open>
  The partition of the listing. The Python keeps the names and joins each with the path
  again; here each name stays paired with what is found under it. \<^verbatim>\<open>dirs.sort()\<close>
  and \<^verbatim>\<open>files.sort()\<close> order the names.
\<close>

fun dirs_of :: "(ustring \<times> fsobj) list \<Rightarrow> (ustring \<times> dirlist) list" where
  "dirs_of [] = []"
| "dirs_of ((item, Dir l) # items) = (item, l) # dirs_of items"
| "dirs_of ((item, File sz) # items) = dirs_of items"

fun files_of :: "bool \<Rightarrow> (ustring \<times> fsobj) list \<Rightarrow> (ustring \<times> nat option) list" where
  "files_of inc [] = []"
| "files_of inc ((item, Dir l) # items) = files_of inc items"
| "files_of inc ((item, File sz) # items) =
     (if inc then (item, sz) # files_of inc items else files_of inc items)"

definition size_str :: "scan_args \<Rightarrow> nat option \<Rightarrow> ustring" where
  \<comment> \<open>the size suffix of a line; \<open>None\<close>: reading the size raised\<close>
  "size_str a sz =
     (if show_size a then
        (case sz of
           None \<Rightarrow> ustr '' [size error]''
         | Some n \<Rightarrow>
             (case format_size n (size_format a) of
                Inl e \<Rightarrow> ustr '' [size error]''
              | Inr s \<Rightarrow> ustr '' ['' @ s @ ustr '']''))
      else [])"

definition over_depth :: "scan_args \<Rightarrow> int \<Rightarrow> bool" where
  \<comment> \<open>\<^verbatim>\<open>max_depth is not None and current_depth > max_depth\<close>\<close>
  "over_depth a current_depth =
     (case max_depth a of None \<Rightarrow> False | Some m \<Rightarrow> m < current_depth)"

text \<open>The line of an entry, and the prefix handed to the walk of a directory.\<close>

definition file_line :: "scan_args \<Rightarrow> ustring \<Rightarrow> bool \<Rightarrow> ustring \<Rightarrow> nat option \<Rightarrow> ustring" where
  "file_line a prefix is_last file_name sz =
     prefix @ (if is_last then corner else branch) @ file_name @ size_str a sz"

definition dir_line :: "scan_args \<Rightarrow> ustring \<Rightarrow> bool \<Rightarrow> ustring \<Rightarrow> dirlist \<Rightarrow> ustring" where
  "dir_line a prefix is_last_dir dir_name dir_path =
     prefix @ (if is_last_dir then corner else branch) @ dir_name @ ustr ''/''
       @ size_str a (Some (get_dir_size dir_path))"

definition new_prefix :: "ustring \<Rightarrow> bool \<Rightarrow> ustring" where
  "new_prefix prefix is_last_dir = prefix @ (if is_last_dir then blank else bar)"

text \<open>The loop over \<^verbatim>\<open>files\<close>; a set stop event ends the function.\<close>

fun scan_files ::
  "(nat \<Rightarrow> bool) \<Rightarrow> scan_args \<Rightarrow> (ustring \<times> nat option) list \<Rightarrow> nat \<Rightarrow> nat \<Rightarrow> ustring \<Rightarrow> walk \<Rightarrow> walk"
where
  "scan_files stop_event a [] i n_files prefix w = w"
| "scan_files stop_event a ((file_name, sz) # rest) i n_files prefix w =
     (if stop_is_set stop_event w then tick w
      else
        let is_last = (int i = int n_files - 1)
        in scan_files stop_event a rest (i + 1) n_files prefix
             (emit (file_line a prefix is_last file_name sz) (tick w)))"

text \<open>Two facts for the termination of the walk: sorting keeps the sizes, and the
  directories of a listing are smaller than the listing.\<close>

lemma sum_list_sort_key:
  fixes f :: "'a \<Rightarrow> nat"
  shows "sum_list (map f (sort_key k xs)) = sum_list (map f xs)"
proof -
  have "sum_mset (image_mset f (mset (sort_key k xs))) = sum_mset (image_mset f (mset xs))"
    by simp
  then show ?thesis by (simp only: sum_mset_sum_list [symmetric] mset_map [symmetric])
qed

lemma dirs_of_size:
  "sum_list (map (\<lambda>d. Suc (size (snd d))) (dirs_of items))
     \<le> size_list (size_prod (\<lambda>_. 0) size) items"
  by (induction items rule: dirs_of.induct) auto

text \<open>
  \<open>scan_directory\<close> is the function, \<open>scan_dirs\<close> its loop over \<^verbatim>\<open>dirs\<close>, which
  calls it again; the flag \<open>scan_dirs\<close> returns says that the loop left the function
  through \<^verbatim>\<open>return\<close>.
\<close>

function scan_directory ::
    "(nat \<Rightarrow> bool) \<Rightarrow> scan_args \<Rightarrow> dirlist \<Rightarrow> ustring \<Rightarrow> int \<Rightarrow> walk \<Rightarrow> walk"
  and scan_dirs ::
    "(nat \<Rightarrow> bool) \<Rightarrow> scan_args \<Rightarrow> (ustring \<times> dirlist) list \<Rightarrow> nat \<Rightarrow> nat \<Rightarrow> nat \<Rightarrow> ustring \<Rightarrow> int
      \<Rightarrow> walk \<Rightarrow> bool \<times> walk"
where
  "scan_directory stop_event a path prefix current_depth w =
     (if stop_is_set stop_event w then tick w
      else if over_depth a current_depth then tick w
      else
        (case path of
           PermissionError \<Rightarrow> emit (prefix @ branch @ ustr ''[Access Denied]'') (tick w)
         | OSError msg \<Rightarrow> emit (prefix @ branch @ ustr ''[Error: '' @ msg @ ustr '']'') (tick w)
         | Entries items \<Rightarrow>
             let dirs = sort_key fst (dirs_of items);
                 files = sort_key fst (files_of (include_files a) items);
                 (returned, w') =
                   scan_dirs stop_event a dirs 0 (length dirs) (length files) prefix current_depth
                     (tick w)
             in if returned then w'
                else if include_files a then scan_files stop_event a files 0 (length files) prefix w'
                else w'))"
| "scan_dirs stop_event a [] i n_dirs n_files prefix current_depth w = (False, w)"
| "scan_dirs stop_event a (d # rest) i n_dirs n_files prefix current_depth w =
     (if stop_is_set stop_event w then (True, tick w)
      else
        let is_last_dir = (int i = int n_dirs - 1 \<and> n_files = 0);
            w' = scan_directory stop_event a (snd d) (new_prefix prefix is_last_dir)
                   (current_depth + 1)
                   (emit (dir_line a prefix is_last_dir (fst d) (snd d)) (tick w))
        in scan_dirs stop_event a rest (i + 1) n_dirs n_files prefix current_depth w')"
  by pat_completeness auto

termination
proof (relation "measure (\<lambda>x. case x of
    Inl (stop_event, a, path, prefix, current_depth, w) \<Rightarrow> size path
  | Inr (stop_event, a, ds, i, n_dirs, n_files, prefix, current_depth, w) \<Rightarrow>
      sum_list (map (\<lambda>d. Suc (size (snd d))) ds))", goal_cases)
  case 1
  show ?case by simp
next
  case (2 stop_event a path prefix current_depth w items dirs files)
  then show ?case
    using dirs_of_size[of items] by (simp add: sum_list_sort_key)
next
  case 3
  then show ?case by simp
next
  case 4
  then show ?case by simp
qed

declare scan_directory.simps [simp del]

section \<open>FolderScanner._scan_folder_thread\<close>

text \<open>
  What a scan reports: the texts given to \<^verbatim>\<open>status_callback\<close>, in order, and the text given
  to \<^verbatim>\<open>callback\<close> (\<open>None\<close>: the callback was not invoked). After the walk the thread
  asks the stop event once more. Nothing in the walk raises, so the handler of the
  thread function has nothing to catch; the recursion limit of the interpreter, which a
  tree nested a thousand levels deep would reach, is left out.
\<close>

record report =
  statuses :: "ustring list"
  delivered :: "ustring option"

definition scan_folder_thread :: "(nat \<Rightarrow> bool) \<Rightarrow> dirlist \<Rightarrow> scan_args \<Rightarrow> report" where
  "scan_folder_thread stop_event folder_path a =
     (let w = scan_directory stop_event a folder_path [] 0 \<lparr>result = [], checks = 0\<rparr>
      in if stop_is_set stop_event w then
           \<lparr>statuses = [ustr ''Scanning folder structure...'', ustr ''Scan cancelled''],
            delivered = None\<rparr>
         else
           \<lparr>statuses = [ustr ''Scanning folder structure...'',
              ustr ''Scan complete. Found '' @ decimal (length (result w)) @ ustr '' items.''],
            delivered = Some (join [10] (result w))\<rparr>)"

section \<open>FolderTreeViewer.scan_folder\<close>

text \<open>
  The caller of the scanner. Its inputs are the text of the folder field, the file system
  (what is found at a path, \<open>None\<close> for a path that does not exist), the two check boxes,
  the depth field and the answer to the question asked for a depth above 20. The depth field
  is taken as \<^verbatim>\<open>int()\<close> reads it: empty after stripping, not a number, or a number.
  The outcome lists the status texts and the error dialogs shown, and what the scanner
  reported if it was started (\<open>None\<close>: it was not). The configuration file, the list of
  recent folders and the progress bar are left out.
\<close>

datatype depth_field = Empty | NotANumber | Number int

record viewer_input =
  folder_var :: ustring
  include_files_var :: bool
  show_size_var :: bool
  max_depth_var :: depth_field
  confirm_large_depth :: bool
  size_format_config :: ustring

record outcome =
  status_texts :: "ustring list"
  error_dialogs :: "ustring list"
  scan :: "report option"

definition rejected :: "string \<Rightarrow> ustring \<Rightarrow> outcome" where
  "rejected status dialog =
     \<lparr>status_texts = [ustr status], error_dialogs = [dialog], scan = None\<rparr>"

definition start_scan ::
  "(nat \<Rightarrow> bool) \<Rightarrow> dirlist \<Rightarrow> viewer_input \<Rightarrow> int option \<Rightarrow> ustring \<Rightarrow> outcome" where
  "start_scan stop_event folder inp depth status =
     \<lparr>status_texts = [status], error_dialogs = [],
      scan = Some (scan_folder_thread stop_event folder
        \<lparr>include_files = include_files_var inp, max_depth = depth,
         show_size = show_size_var inp, size_format = size_format_config inp\<rparr>)\<rparr>"

definition viewer_scan_folder ::
  "(nat \<Rightarrow> bool) \<Rightarrow> (ustring \<Rightarrow> fsobj option) \<Rightarrow> viewer_input \<Rightarrow> outcome" where
  "viewer_scan_folder stop_event fs inp =
     (let folder_path = strip (folder_var inp)
      in if folder_path = [] then
           \<lparr>status_texts = [ustr ''Please select a folder first.''], error_dialogs = [],
            scan = None\<rparr>
         else
           (case fs folder_path of
              None \<Rightarrow>
                rejected ''Invalid folder path.'' (ustr ''The selected folder does not exist.'')
            | Some (File sz) \<Rightarrow>
                rejected ''Invalid folder path.'' (ustr ''The selected path is not a folder.'')
            | Some (Dir PermissionError) \<Rightarrow>
                rejected ''Access denied.''
                  (ustr ''You don't have permission to access this folder.'')
            | Some (Dir (OSError msg)) \<Rightarrow>
                rejected ''Error accessing folder.'' (ustr ''Failed to access folder: '' @ msg)
            | Some (Dir (Entries items)) \<Rightarrow>
                (case max_depth_var inp of
                   Empty \<Rightarrow>
                     start_scan stop_event (Entries items) inp None
                       (ustr ''Scanning with unlimited depth'')
                 | NotANumber \<Rightarrow>
                     start_scan stop_event (Entries items) inp None
                       (ustr ''Invalid max depth value. Using unlimited depth.'')
                 | Number n \<Rightarrow>
                     if n < 0 then
                       start_scan stop_event (Entries items) inp None
                         (ustr ''Max depth cannot be negative. Using unlimited depth.'')
                     else if n = 0 then
                       start_scan stop_event (Entries items) inp (Some 0)
                         (ustr ''Scanning current folder only (depth 0)'')
                     else if 20 < n \<and> \<not> confirm_large_depth inp then
                       \<lparr>status_texts = [], error_dialogs = [], scan = None\<rparr>
                     else
                       start_scan stop_event (Entries items) inp (Some n)
                         (ustr ''Scanning with max depth: '' @ decimal (nat n)))))"

section \<open>FolderTreeViewer._parse_tree_to_json\<close>

text \<open>
  An item is the dictionary the parser builds: the keys \<^verbatim>\<open>name\<close> and \<^verbatim>\<open>type\<close> are
  written by the dictionary display, the key \<^verbatim>\<open>children\<close> is added afterwards for some
  items only, so it is optional here.
\<close>

datatype node = Node (name: ustring) (kind: ustring) (children: "node list option")

text \<open>
  Each frame of the stack holds a reference to a list inside the result: the result list
  itself or the \<^verbatim>\<open>children\<close> list of an item. A reference is modelled by the way to
  that list from the result: the empty path is the result list, \<open>p @ [i]\<close> is the
  \<^verbatim>\<open>children\<close> list of item \<open>i\<close> of the list at \<open>p\<close>. \<open>list_at\<close> reads through a
  reference and \<open>append_at\<close> is \<^verbatim>\<open>current_list.append(item)\<close>.
\<close>

fun list_at :: "nat list \<Rightarrow> node list \<Rightarrow> node list" where
  "list_at [] ns = ns"
| "list_at (i # p) ns =
     (if i < length ns then
        (case children (ns ! i) of
           Some cs \<Rightarrow> list_at p cs
         | None \<Rightarrow> [])
      else [])"

fun append_at :: "nat list \<Rightarrow> node \<Rightarrow> node list \<Rightarrow> node list" where
  "append_at [] item ns = ns @ [item]"
| "append_at (i # p) item ns =
     (if i < length ns then
        (case children (ns ! i) of
           Some cs \<Rightarrow> ns[i := Node (name (ns ! i)) (kind (ns ! i)) (Some (append_at p item cs))]
         | None \<Rightarrow> ns)
      else ns)"

text \<open>
  \<^verbatim>\<open>\]$\<close>: where the closing bracket of a size suffix must stand. Without
  \<^verbatim>\<open>re.MULTILINE\<close>, \<^verbatim>\<open>$\<close> matches at the end of the string and before a newline that
  ends it.
\<close>

definition closing_bracket :: "ustring \<Rightarrow> nat option" where
  "closing_bracket s =
     (let n = length s
      in if 0 < n \<and> s ! (n - 1) = 93 then Some (n - 1)
         else if 1 < n \<and> s ! (n - 1) = 10 \<and> s ! (n - 2) = 93 then Some (n - 2)
         else None)"

definition no_newline :: "ustring \<Rightarrow> nat \<Rightarrow> nat \<Rightarrow> bool" where
  \<comment> \<open>\<^verbatim>\<open>.*\<close> can cover \<open>s[i:k]\<close>\<close>
  "no_newline s i k = (10 \<notin> set (take (k - i) (drop i s)))"

text \<open>
  \<^verbatim>\<open>re.search(r'\s+\[.*\]$', item_name)\<close>: the start and the end of the leftmost match.
  A match from \<open>i\<close> takes the whole run of whitespace at \<open>i\<close>, which an opening bracket
  must follow.
\<close>

definition size_match :: "ustring \<Rightarrow> (nat \<times> nat) option" where
  "size_match s =
     (case closing_bracket s of
        None \<Rightarrow> None
      | Some k \<Rightarrow>
          (case find (\<lambda>i. isspace (s ! i) \<and>
                    (let j = i + length (takeWhile isspace (drop i s))
                     in j < k \<and> s ! j = 91 \<and> no_newline s (j + 1) k))
                  [0..<length s] of
             None \<Rightarrow> None
           | Some i \<Rightarrow> Some (i, k + 1)))"

definition leading_whitespace :: "ustring \<Rightarrow> nat" where
  \<comment> \<open>\<^verbatim>\<open>len(re.match(r'^(\s*)', line).group(1))\<close>\<close>
  "leading_whitespace line = length (takeWhile isspace line)"

fun pop_frames :: "nat \<Rightarrow> (nat list \<times> nat) list \<Rightarrow> (nat list \<times> nat) list" where
  \<comment> \<open>\<^verbatim>\<open>while len(stack) > 1 and indent <= stack[-1][1]: stack.pop()\<close>; the top of the
      stack is the head of the list\<close>
  "pop_frames indent (f # g # fs) =
     (if indent \<le> snd f then pop_frames indent (g # fs) else f # g # fs)"
| "pop_frames indent fs = fs"

definition skip_header :: "ustring list \<Rightarrow> ustring list" where
  \<comment> \<open>\<^verbatim>\<open>lines[start_line:]\<close>, two lines after the first line of dashes, if there is one\<close>
  "skip_header lines =
     (case find (\<lambda>i. startswith (lines ! i) (ustr ''----'')) [0..<length lines] of
        None \<Rightarrow> lines
      | Some i \<Rightarrow> drop (i + 2) lines)"

record parser_state =
  forest :: "node list"
  stack :: "(nat list \<times> nat) list"

text \<open>
  One turn of the loop over the lines. The item is appended with its \<^verbatim>\<open>children\<close> key
  already in place: the Python sets the key on the dictionary it has just appended,
  which is the same object. The stack is never empty, so \<^verbatim>\<open>stack[-1]\<close> always exists.
\<close>

definition item_label :: "ustring \<Rightarrow> ustring option" where
  \<comment> \<open>the name part of a stripped line; \<open>None\<close>: the line is skipped\<close>
  "item_label clean_line =
     (if startswith clean_line branch then Some (drop 4 clean_line)
      else if startswith clean_line corner then Some (drop 4 clean_line)
      else if startswith clean_line bar then None
      else Some clean_line)"

definition without_size :: "ustring \<Rightarrow> ustring" where
  \<comment> \<open>\<^verbatim>\<open>item_name[:-(len(size_info))]\<close> if the pattern matches\<close>
  "without_size item_name =
     (case size_match item_name of
        None \<Rightarrow> item_name
      | Some (i, e) \<Rightarrow> take (length item_name - (e - i)) item_name)"

definition parse_line :: "parser_state \<Rightarrow> ustring \<Rightarrow> parser_state" where
  "parse_line st line =
     (if strip line = [] then st
      else
        let indent = leading_whitespace line;
            clean_line = strip line
        in case item_label clean_line of
             None \<Rightarrow> st
           | Some item_name \<Rightarrow>
               let is_dir = endswith item_name (ustr ''/'');
                   item = Node (rstrip_slash (without_size item_name))
                            (if is_dir then ustr ''directory'' else ustr ''file'')
                            (if is_dir then Some [] else None);
                   stack' = pop_frames indent (stack st)
               in case stack' of
                    [] \<Rightarrow> st
                  | (current_list, threshold) # below \<Rightarrow>
                      let position = length (list_at current_list (forest st));
                          forest' = append_at current_list item (forest st)
                      in if is_dir then
                           \<lparr>forest = forest',
                            stack = (current_list @ [position], indent + 4) # stack'\<rparr>
                         else \<lparr>forest = forest', stack = stack'\<rparr>)"

definition parse_tree_to_json :: "ustring list \<Rightarrow> node list" where
  "parse_tree_to_json lines =
     forest (foldl parse_line \<lparr>forest = [], stack = [([], 0)]\<rparr> (skip_header lines))"

section \<open>FolderTreeViewer.export_tree, CSV branch\<close>

text \<open>
  The rows of \<^verbatim>\<open>csv_data\<close>, before \<^verbatim>\<open>csv.writer\<close> lays them out. The functions of
  \<^verbatim>\<open>os.path\<close> belong to the platform and are parameters: \<open>path_join\<close> for
  \<^verbatim>\<open>os.path.join(root, *names)\<close>, \<open>dirname\<close> for \<^verbatim>\<open>os.path.dirname\<close>, and \<open>modified\<close>
  for the formatted modification time of a path, empty where the path does not exist or
  the time cannot be read.
\<close>

record path_ops =
  path_join :: "ustring \<Rightarrow> ustring list \<Rightarrow> ustring"
  dirname :: "ustring \<Rightarrow> ustring"
  modified :: "ustring \<Rightarrow> ustring"

text \<open>
  \<^verbatim>\<open>re.search(r'\[(.*?)\]$', item_name)\<close>: the start of the leftmost match and the
  position of its closing bracket.
\<close>

definition csv_size_match :: "ustring \<Rightarrow> (nat \<times> nat) option" where
  "csv_size_match s =
     (case closing_bracket s of
        None \<Rightarrow> None
      | Some k \<Rightarrow>
          (case find (\<lambda>i. s ! i = 91 \<and> i < k \<and> no_newline s (i + 1) k) [0..<length s] of
             None \<Rightarrow> None
           | Some i \<Rightarrow> Some (i, k)))"

definition is_header_line :: "ustring \<Rightarrow> bool" where
  "is_header_line line =
     (startswith line (ustr ''Folder Tree:'') \<or> startswith line (ustr ''Generated:'')
      \<or> startswith line (ustr ''----''))"

record csv_state =
  csv_data :: "ustring list list"
  current_path :: "ustring list"

text \<open>
  What one line contributes: whether it is a directory, the name pushed on the path stack,
  the name shown in the row (the size suffix cut off) and the size text. \<open>None\<close>: the
  line is passed over.
\<close>

definition csv_entry :: "ustring \<Rightarrow> (bool \<times> ustring \<times> ustring \<times> ustring) option" where
  "csv_entry line =
     (if strip line = [] then None
      else if is_header_line line then None
      else
        let clean_line = strip line
        in if startswith clean_line branch \<or> startswith clean_line corner then
             let item_name = drop 4 clean_line;
                 is_dir = endswith item_name (ustr ''/'');
                 item_name = (if is_dir then butlast item_name else item_name)
             in (case csv_size_match item_name of
                   None \<Rightarrow> Some (is_dir, item_name, item_name, [])
                 | Some (i, k) \<Rightarrow>
                     Some (is_dir, item_name, strip (take i item_name),
                           take (k - (i + 1)) (drop (i + 1) item_name)))
           else None)"

definition csv_line :: "path_ops \<Rightarrow> ustring \<Rightarrow> csv_state \<Rightarrow> ustring \<Rightarrow> csv_state" where
  "csv_line os folder st line =
     (case csv_entry line of
        None \<Rightarrow> st
      | Some (is_dir, pushed, item_name, size_text) \<Rightarrow>
          let depth = leading_whitespace line div 4;
              current_path' = take depth (current_path st) @ [pushed];
              full_path = path_join os folder (butlast current_path' @ [item_name])
          in \<lparr>csv_data = csv_data st @
                 [[if is_dir then ustr ''Directory'' else ustr ''File'', item_name,
                   dirname os full_path, size_text, modified os full_path]],
              current_path = current_path'\<rparr>)"

definition export_csv_rows :: "path_ops \<Rightarrow> ustring \<Rightarrow> ustring list \<Rightarrow> ustring list list" where
  "export_csv_rows os folder lines =
     csv_data (foldl (csv_line os folder)
       \<lparr>csv_data = [[ustr ''Type'', ustr ''Name'', ustr ''Path'', ustr ''Size'', ustr ''Modified'']],
        current_path = []\<rparr> lines)"

text \<open>
  \<^verbatim>\<open>posixpath.join\<close> and \<^verbatim>\<open>posixpath.dirname\<close> of the Python library, for running the
  export on a concrete input.
\<close>

fun posix_join :: "ustring \<Rightarrow> ustring list \<Rightarrow> ustring" where
  "posix_join path [] = path"
| "posix_join path (b # bs) =
     posix_join
       (if startswith b (ustr ''/'') then b
        else if path = [] \<or> endswith path (ustr ''/'') then path @ b
        else path @ ustr ''/'' @ b) bs"

definition posix_dirname :: "ustring \<Rightarrow> ustring" where
  "posix_dirname p =
     (let head = rev (dropWhile (\<lambda>c. c \<noteq> 47) (rev p))
      in if head \<noteq> [] \<and> head \<noteq> replicate (length head) 47 then rstrip_slash head else head)"

section \<open>The lines of a walk that is not cancelled\<close>

text \<open>
  The same walk without the state: the lines it appends when the stop event is never set.
  \<open>scan_walked\<close> and \<open>scan_lines_tree_lines\<close> below show that \<open>scan_directory\<close>
  appends exactly these lines.
\<close>

fun files_lines ::
  "scan_args \<Rightarrow> (ustring \<times> nat option) list \<Rightarrow> nat \<Rightarrow> nat \<Rightarrow> ustring \<Rightarrow> ustring list"
where
  "files_lines a [] i n_files prefix = []"
| "files_lines a ((file_name, sz) # rest) i n_files prefix =
     file_line a prefix (int i = int n_files - 1) file_name sz
       # files_lines a rest (i + 1) n_files prefix"

function tree_lines :: "scan_args \<Rightarrow> dirlist \<Rightarrow> ustring \<Rightarrow> int \<Rightarrow> ustring list"
  and dirs_lines ::
    "scan_args \<Rightarrow> (ustring \<times> dirlist) list \<Rightarrow> nat \<Rightarrow> nat \<Rightarrow> nat \<Rightarrow> ustring \<Rightarrow> int \<Rightarrow> ustring list"
where
  "tree_lines a path prefix current_depth =
     (if over_depth a current_depth then []
      else
        (case path of
           PermissionError \<Rightarrow> [prefix @ branch @ ustr ''[Access Denied]'']
         | OSError msg \<Rightarrow> [prefix @ branch @ ustr ''[Error: '' @ msg @ ustr '']'']
         | Entries items \<Rightarrow>
             dirs_lines a (sort_key fst (dirs_of items)) 0 (length (dirs_of items))
               (length (files_of (include_files a) items)) prefix current_depth
             @ files_lines a (sort_key fst (files_of (include_files a) items)) 0
                 (length (files_of (include_files a) items)) prefix))"
| "dirs_lines a [] i n_dirs n_files prefix current_depth = []"
| "dirs_lines a (d # rest) i n_dirs n_files prefix current_depth =
     dir_line a prefix (int i = int n_dirs - 1 \<and> n_files = 0) (fst d) (snd d)
       # tree_lines a (snd d) (new_prefix prefix (int i = int n_dirs - 1 \<and> n_files = 0))
           (current_depth + 1)
       @ dirs_lines a rest (i + 1) n_dirs n_files prefix current_depth"
  by pat_completeness auto
termination
proof (relation "measure (\<lambda>x. case x of
    Inl (a, path, prefix, current_depth) \<Rightarrow> size path
  | Inr (a, ds, i, n_dirs, n_files, prefix, current_depth) \<Rightarrow>
      sum_list (map (\<lambda>d. Suc (size (snd d))) ds))", goal_cases)
  case 1
  show ?case by simp
next
  case (2 a path prefix current_depth items)
  then show ?case
    using dirs_of_size[of items] by (simp add: sum_list_sort_key)
next
  case 3
  then show ?case by simp
next
  case 4
  then show ?case by simp
qed

declare tree_lines.simps [simp del]

text \<open>
  The level of a line: how many groups of a bar or of four spaces stand before its
  connector. The scanner writes the children of the root at level 0.
\<close>

fun line_level :: "ustring \<Rightarrow> nat" where
  "line_level (c1 # c2 # c3 # c4 # s) =
     (if [c1, c2, c3, c4] = bar \<or> [c1, c2, c3, c4] = blank then Suc (line_level s) else 0)"
| "line_level s = 0"

section \<open>Notions for stating the properties\<close>

text \<open>\<open>initial xs ys\<close>: the list \<open>ys\<close> begins with \<open>xs\<close>.\<close>

definition initial :: "'a list \<Rightarrow> 'a list \<Rightarrow> bool" where
  "initial xs ys = (take (length xs) ys = xs)"

text \<open>
  \<open>stays_set stop_event\<close>: once a check has found the stop event set, every later check
  finds it set. Nothing clears the event while the scan runs: \<^verbatim>\<open>FolderScanner.scan_folder\<close>
  clears it when the next scan is asked for, then sets it and waits for a scan that is
  still running.
  \<open>unobserved stop_event w\<close>: none of the checks made up to the state \<open>w\<close> has found the
  event set. \<open>walked stop_event w w' ls\<close>: from \<open>w\<close> to \<open>w'\<close> the walk has appended
  some of the lines \<open>ls\<close>, in order and from the first, and all of them if the event was
  not observed, provided the event stays set.
\<close>

definition stays_set :: "(nat \<Rightarrow> bool) \<Rightarrow> bool" where
  "stays_set stop_event = (\<forall>k. stop_event k \<longrightarrow> stop_event (Suc k))"

definition unobserved :: "(nat \<Rightarrow> bool) \<Rightarrow> walk \<Rightarrow> bool" where
  "unobserved stop_event w = (\<forall>k < checks w. \<not> stop_event k)"

definition walked :: "(nat \<Rightarrow> bool) \<Rightarrow> walk \<Rightarrow> walk \<Rightarrow> ustring list \<Rightarrow> bool" where
  "walked stop_event w w' ls =
     (stays_set stop_event \<longrightarrow>
        initial (result w) (result w') \<and> initial (result w') (result w @ ls)
        \<and> checks w \<le> checks w'
        \<and> (unobserved stop_event w' \<longrightarrow> result w' = result w @ ls))"

text \<open>The lines of a scan whose checks never find the event set, started on an empty
  result.\<close>

definition scan_lines :: "scan_args \<Rightarrow> dirlist \<Rightarrow> ustring \<Rightarrow> int \<Rightarrow> ustring list" where
  "scan_lines a path prefix current_depth =
     result (scan_directory (\<lambda>k. False) a path prefix current_depth \<lparr>result = [], checks = 0\<rparr>)"

text \<open>A prefix of the walk: one group of four glyphs for each level, blank or a bar.\<close>

definition segments :: "bool list \<Rightarrow> ustring" where
  "segments bs = concat (map (\<lambda>b. if b then blank else bar) bs)"

text \<open>
  The shape of an item: its type is one of the two texts, it has the key \<^verbatim>\<open>children\<close>
  exactly when it is a directory, and its children have that shape too.
\<close>

primrec well_formed :: "node \<Rightarrow> bool" where
  "well_formed (Node n k cs) =
     ((k = ustr ''directory'' \<or> k = ustr ''file'')
      \<and> (cs \<noteq> None) = (k = ustr ''directory'')
      \<and> pred_option (list_all well_formed) cs)"

text \<open>
  The number of items in a forest, at all depths; the references that lead to a list that
  exists; the lines the parser makes an item of; and the condition the stack of the parser
  meets throughout: it is not empty and every frame refers to an existing list.
\<close>

primrec count_nodes :: "node \<Rightarrow> nat" where
  "count_nodes (Node n k cs) =
     Suc (case map_option (map count_nodes) cs of None \<Rightarrow> 0 | Some sizes \<Rightarrow> sum_list sizes)"

definition forest_size :: "node list \<Rightarrow> nat" where
  "forest_size ns = sum_list (map count_nodes ns)"

fun valid_ref :: "nat list \<Rightarrow> node list \<Rightarrow> bool" where
  "valid_ref [] ns = True"
| "valid_ref (i # p) ns =
     (i < length ns \<and> (case children (ns ! i) of Some cs \<Rightarrow> valid_ref p cs | None \<Rightarrow> False))"

definition is_entry_line :: "ustring \<Rightarrow> bool" where
  "is_entry_line line = (strip line \<noteq> [] \<and> item_label (strip line) \<noteq> None)"

definition stack_ok :: "parser_state \<Rightarrow> bool" where
  "stack_ok st = (stack st \<noteq> [] \<and> (\<forall>f \<in> set (stack st). valid_ref (fst f) (forest st)))"

text \<open>Inputs for running the functions: the tree of the specification's example, with the
  options of that example, and the platform functions of a POSIX system.\<close>

definition proj :: dirlist where
  "proj = Entries [(ustr ''README.md'', File (Some 5)),
                   (ustr ''src'', Dir (Entries [(ustr ''a.txt'', File (Some 10))]))]"

definition plain :: scan_args where
  "plain = \<lparr>include_files = True, max_depth = None, show_size = False,
            size_format = ustr ''auto''\<rparr>"

definition posix :: path_ops where
  "posix = \<lparr>path_join = posix_join, dirname = posix_dirname, modified = (\<lambda>p. [])\<rparr>"

definition no_such_folder :: viewer_input where
  "no_such_folder =
     \<lparr>folder_var = ustr '' /gone '', include_files_var = True, show_size_var = False,
      max_depth_var = Empty, confirm_large_depth = False, size_format_config = ustr ''auto''\<rparr>"

section \<open>Properties of the number model\<close>

lemma round_half_even_of_int: "round_half_even (of_int z) = z"
  by (simp add: round_half_even_def)

lemma ilog2_bounds:
  assumes "0 < q"
  shows "2 powi (ilog2 q) \<le> q \<and> q < 2 powi (ilog2 q + 1)"
proof (cases "1 \<le> q")
  case True
  define n where "n = \<lfloor>q\<rfloor>"
  have n: "0 < n" using True by (simp add: n_def)
  from bitlen_bounds[OF n] have b: "2 ^ nat (bitlen n - 1) \<le> n" "n < 2 ^ nat (bitlen n)" by auto
  have b1: "1 \<le> bitlen n" using n by (simp add: bitlen_alt_def)
  have e: "ilog2 q = bitlen n - 1" using True by (simp add: ilog2_def n_def)
  have "(2::rat) ^ nat (bitlen n - 1) = of_int (2 ^ nat (bitlen n - 1))" by simp
  also have "\<dots> \<le> of_int n" using b(1) by (simp only: of_int_le_iff)
  also have "\<dots> \<le> q" by (simp add: n_def)
  finally have lo: "2 powi (bitlen n - 1) \<le> q" using b1 by (simp add: power_int_def)
  have "n + 1 \<le> 2 ^ nat (bitlen n)" using b(2) by simp
  then have "(of_int (n + 1) :: rat) \<le> of_int (2 ^ nat (bitlen n))" by (simp only: of_int_le_iff)
  also have "\<dots> = (2::rat) ^ nat (bitlen n)" by simp
  finally have "(of_int (n + 1) :: rat) \<le> 2 ^ nat (bitlen n)" .
  moreover have "q < of_int (n + 1)" using floor_correct[of q] by (simp add: n_def)
  ultimately have hi: "q < 2 powi (bitlen n)" using b1 by (simp add: power_int_def)
  show ?thesis using lo hi e by simp
next
  case False
  define x where "x = 1 / q"
  have x: "1 < x" using False assms by (simp add: x_def)
  define n where "n = \<lceil>x\<rceil> - 1"
  have n: "0 < n" using x by (simp add: n_def less_ceiling_iff)
  have nx: "of_int n < x" "x \<le> of_int (n + 1)" using ceiling_correct[of x] by (simp_all add: n_def)
  from bitlen_bounds[OF n] have b: "2 ^ nat (bitlen n - 1) \<le> n" "n < 2 ^ nat (bitlen n)" by auto
  have b1: "1 \<le> bitlen n" using n by (simp add: bitlen_alt_def)
  have e: "ilog2 q = - bitlen n" using False by (simp add: ilog2_def n_def x_def)
  have "(2::rat) ^ nat (bitlen n - 1) = of_int (2 ^ nat (bitlen n - 1))" by simp
  also have "\<dots> \<le> of_int n" using b(1) by (simp only: of_int_le_iff)
  also have "\<dots> < x" by (rule nx(1))
  finally have lo: "(2::rat) ^ nat (bitlen n - 1) < x" .
  have "n + 1 \<le> 2 ^ nat (bitlen n)" using b(2) by simp
  then have "(of_int (n + 1) :: rat) \<le> of_int (2 ^ nat (bitlen n))" by (simp only: of_int_le_iff)
  also have "\<dots> = (2::rat) ^ nat (bitlen n)" by simp
  finally have hi: "x \<le> (2::rat) ^ nat (bitlen n)" using nx(2) by simp
  have q: "q = 1 / x" using assms by (simp add: x_def)
  have "2 powi (- bitlen n) = 1 / (2::rat) ^ nat (bitlen n)"
    using b1 by (simp add: power_int_def field_simps)
  also have "\<dots> \<le> 1 / x" using hi x by (simp add: frac_le)
  finally have A: "2 powi (- bitlen n) \<le> q" using q by simp
  have "1 / x < 1 / (2::rat) ^ nat (bitlen n - 1)" using lo x
    by (simp add: frac_less2)
  also have "\<dots> = 2 powi (- bitlen n + 1)"
  proof (cases "bitlen n = 1")
    case True then show ?thesis by simp
  next
    case False
    then have "- bitlen n + 1 < 0" "nat (bitlen n - 1) = nat (- (- bitlen n + 1))" using b1 by auto
    then show ?thesis by (simp add: power_int_def field_simps)
  qed
  finally have B: "q < 2 powi (- bitlen n + 1)" using q by simp
  show ?thesis using A B e by simp
qed

lemma pow2_less_cancel: "(2::rat) powi a < 2 powi b \<Longrightarrow> a < b"
  using power_int_increasing[of b a "2::rat"] by (cases "a < b") auto

lemma round_double_exact:
  fixes m :: int and j :: nat
  assumes m: "0 < m" "m < 2 ^ 53" and j: "j \<le> 1022"
  shows "round_double (of_int m / 2 ^ j) = Inr (of_int m / 2 ^ j)"
proof -
  define q :: rat where "q = of_int m / 2 ^ j"
  have q_powi: "q = of_int m * 2 powi (- int j)"
    by (simp add: q_def power_int_minus field_simps)
  have q0: "0 < q" using m by (simp add: q_def)
  define e where "e = ilog2 q"
  have b: "2 powi e \<le> q" "q < 2 powi (e + 1)"
    using ilog2_bounds[OF q0] by (simp_all add: e_def)
  have "(1::rat) \<le> of_int m" using m by simp
  then have "1 * 2 powi (- int j) \<le> of_int m * (2::rat) powi (- int j)"
    by (intro mult_right_mono) auto
  then have qlo: "2 powi (- int j) \<le> q" by (simp add: q_powi)
  have "(of_int m :: rat) < of_int (2 ^ 53)" using m by (simp only: of_int_less_iff)
  then have "(of_int m :: rat) < 2 powi 53" by simp
  then have "of_int m * 2 powi (- int j) < (2::rat) powi 53 * 2 powi (- int j)"
    by (intro mult_strict_right_mono) auto
  also have "\<dots> = 2 powi (53 + - int j)"
    by (rule power_int_add [symmetric]) simp
  finally have qhi: "q < 2 powi (53 - int j)" by (simp add: q_powi)
  have e1: "- int j \<le> e"
    using pow2_less_cancel[of "- int j" "e + 1"] qlo b(2) by simp
  have e2: "e \<le> 52 - int j"
    using pow2_less_cancel[of e "53 - int j"] qhi b(1) by simp
  have emax: "max e (- 1022) = e" using e1 j by simp
  define k where "k = nat (52 - int j - e)"
  have s1: "q / 2 powi (e - 52) = of_int m * (2 powi (- int j) * 2 powi (52 - e))"
    by (simp add: q_powi power_int_diff field_simps)
  have s2: "2 powi (- int j) * 2 powi (52 - e) = (2::rat) powi (- int j + (52 - e))"
    by (rule power_int_add [symmetric]) simp
  have s3: "- int j + (52 - e) = int k" using e2 by (simp add: k_def)
  have quot: "q / 2 powi (e - 52) = of_int (m * 2 ^ k)"
    unfolding s1 s2 s3 by simp
  have restore: "of_int (m * 2 ^ k) * 2 powi (e - 52) = q"
    using quot by (metis nonzero_divide_eq_eq power_int_eq_0_iff zero_neq_numeral)
  have "q < 2 powi (53 - int j)" by (rule qhi)
  also have "\<dots> \<le> 2 powi 1024" by (intro power_int_increasing) auto
  finally have small: "\<not> 2 ^ 1024 \<le> q" by simp
  have "round_double q = Inr q"
    using q0 small
    by (simp add: round_double_def Let_def e_def [symmetric] emax quot
        round_half_even_of_int restore del: of_int_mult of_int_power)
  then show ?thesis by (simp add: q_def)
qed

lemma round_double_of_nat: "n < 2 ^ 53 \<Longrightarrow> round_double (of_nat n) = Inr (of_nat n)"
  using round_double_exact[of "int n" 0] by (cases "n = 0") (simp_all add: round_double_def)

lemma round_double_dyadic:
  fixes m :: int and j :: nat
  shows "0 < m \<Longrightarrow> m < 2 ^ 53 \<Longrightarrow> j \<le> 1022 \<Longrightarrow> q = of_int m / 2 ^ j \<Longrightarrow> round_double q = Inr q"
  using round_double_exact by simp

lemma format_2f_of_nat: "format_2f (of_nat n) = decimal n @ ustr ''.00''"
proof -
  have "(of_nat n :: rat) * 100 = of_int (int n * 100)" by simp
  then have "round_half_even (of_nat n * 100) = int n * 100"
    by (simp only: round_half_even_of_int)
  then show ?thesis
    by (simp add: format_2f_def Let_def ustr_def nat_mult_distrib)
qed

lemma length_format_2f: "4 \<le> length (format_2f x)"
  by (simp add: format_2f_def Let_def decimal.simps[of "nat (round_half_even (x * 100)) div 100"])

lemma list_index_size_names:
  "k < 5 \<Longrightarrow> list_index size_names (size_names ! k) = Some k"
proof -
  assume "k < 5"
  then consider "k = 0" | "k = 1" | "k = 2" | "k = 3" | "k = 4" by linarith
  then show ?thesis
    by cases (simp_all add: size_names_def ustr_def)
qed

lemma size_names_not_mode:
  "k < 5 \<Longrightarrow> size_names ! k \<noteq> ustr ''bytes'' \<and> size_names ! k \<noteq> ustr ''auto''"
proof -
  assume "k < 5"
  then consider "k = 0" | "k = 1" | "k = 2" | "k = 3" | "k = 4" by linarith
  then show ?thesis
    by cases (simp_all add: size_names_def ustr_def)
qed

lemma pow_1024: "(1024::rat) ^ n = 2 ^ (10 * n)"
  by (simp add: power_mult)

lemma round_double_div_1024:
  "0 < s \<Longrightarrow> s < 2 ^ 53 \<Longrightarrow> 10 * n \<le> 1022 \<Longrightarrow>
   round_double (of_nat s / 1024 ^ n) = Inr (of_nat s / 1024 ^ n)"
  using round_double_exact[of "int s" "10 * n"] by (simp add: pow_1024)

lemma divide_times_float_exact:
  "0 < s \<Longrightarrow> s < 2 ^ 53 \<Longrightarrow> 10 * (i + k) \<le> 1022 \<Longrightarrow>
   divide_times k (PyFloat (of_nat s / 1024 ^ i)) = Inr (PyFloat (of_nat s / 1024 ^ (i + k)))"
proof (induction k arbitrary: i)
  case 0
  then show ?case by simp
next
  case (Suc k)
  have "round_double (of_nat s / 1024 ^ Suc i) = Inr (of_nat s / 1024 ^ Suc i)"
    using Suc.prems by (intro round_double_div_1024) auto
  then have "truediv_1024 (PyFloat (of_nat s / 1024 ^ i)) = Inr (PyFloat (of_nat s / 1024 ^ Suc i))"
    by (simp add: truediv_1024_def mult.commute)
  moreover have "divide_times k (PyFloat (of_nat s / 1024 ^ Suc i)) = Inr (PyFloat (of_nat s / 1024 ^ (Suc i + k)))"
    using Suc.prems by (intro Suc.IH) auto
  ultimately show ?case by simp
qed

lemma divide_times_int_exact:
  assumes "0 < s" "s < 2 ^ 53" "k < 5"
  shows "(case divide_times k (PyInt s) of Inl e \<Rightarrow> Inl e | Inr v \<Rightarrow> to_float v)
         = Inr (of_nat s / 1024 ^ k)"
proof (cases k)
  case 0
  then show ?thesis using assms by (simp add: to_float_def round_double_of_nat)
next
  case (Suc k')
  have "round_double (of_nat s / 1024 ^ 1) = Inr (of_nat s / 1024 ^ 1)"
    using assms by (intro round_double_div_1024) auto
  then have "truediv_1024 (PyInt s) = Inr (PyFloat (of_nat s / 1024 ^ 1))"
    by (simp add: truediv_1024_def)
  moreover have "divide_times k' (PyFloat (of_nat s / 1024 ^ 1)) = Inr (PyFloat (of_nat s / 1024 ^ (1 + k')))"
    using assms Suc by (intro divide_times_float_exact) auto
  ultimately show ?thesis using Suc by (simp add: to_float_def)
qed

lemma auto_loop_small: "n < 1024 \<Longrightarrow> auto_loop (PyInt n) 0 = Inr (PyInt n, 0)"
  by (simp add: auto_loop.simps ge_1024_def)

lemma format_size_auto_small:
  assumes "0 < s" "s < 1024"
  shows "format_size s (ustr ''auto'') = Inr (decimal s @ ustr ''.00 B'')"
proof -
  have "s < 2 ^ 53" using assms by simp
  then have "round_double (of_nat s) = Inr (of_nat s)" by (rule round_double_of_nat)
  then show ?thesis
    using assms
    by (simp add: format_size_def auto_loop_small render_2f_def to_float_def
        format_2f_of_nat size_names_def ustr_def)
qed

lemma render_2f_length: "render_2f v unit = Inr t \<Longrightarrow> 5 \<le> length t"
proof -
  assume "render_2f v unit = Inr t"
  then obtain x where "t = format_2f x @ ustr '' '' @ unit"
    by (auto simp: render_2f_def split: sum.splits)
  then show ?thesis
    using length_format_2f[of x] by (simp add: ustr_def)
qed

lemma format_size_auto_positive:
  assumes "0 < s"
  shows "format_size s (ustr ''auto'') \<noteq> Inr (ustr ''0 B'')"
proof
  assume eq: "format_size s (ustr ''auto'') = Inr (ustr ''0 B'')"
  have "ustr ''auto'' \<noteq> ustr ''bytes''" by (simp add: ustr_def)
  with assms eq obtain v i where "render_2f v (size_names ! i) = Inr (ustr ''0 B'')"
    by (auto simp: format_size_def split: sum.splits)
  from render_2f_length[OF this] show False by (simp add: ustr_def)
qed

section \<open>Claims about size formatting\<close>

text \<open>
  C5, as the code has it. For a positive byte count \<open>s\<close> and the explicit unit at position
  \<open>k\<close> of the unit sequence B, KB, MB, GB, TB, \<open>format_size\<close> divides \<open>s\<close> by 1024
  exactly \<open>k\<close> times (Python's true division, which fails only where the quotient leaves
  the range of a float) and renders the value with two decimals followed by the unit.
  Below \<open>2\<^sup>5\<^sup>3\<close> every division is exact and the rendered value is \<open>s / 1024 ^ k\<close>.
  A byte count of 0 never reaches the division: it is rendered as \<^verbatim>\<open>0 B\<close> in every mode.
\<close>

theorem format_size_explicit_unit:
  assumes "0 < s" and "k < 5"
  shows "format_size s (size_names ! k) =
           (case divide_times k (PyInt s) of
              Inl e \<Rightarrow> Inl e
            | Inr v \<Rightarrow> render_2f v (size_names ! k))
         \<and> (s < 2 ^ 53 \<longrightarrow>
              format_size s (size_names ! k) =
                Inr (format_2f (of_nat s / 1024 ^ k) @ ustr '' '' @ size_names ! k))"
proof -
  have general: "format_size s (size_names ! k) =
      (case divide_times k (PyInt s) of
         Inl e \<Rightarrow> Inl e
       | Inr v \<Rightarrow> render_2f v (size_names ! k))"
    using assms size_names_not_mode[of k] list_index_size_names[of k]
    by (simp add: format_size_def)
  have exact: "format_size s (size_names ! k) =
      Inr (format_2f (of_nat s / 1024 ^ k) @ ustr '' '' @ size_names ! k)"
    if "s < 2 ^ 53"
    using divide_times_int_exact[OF assms(1) that assms(2)]
    by (auto simp: general render_2f_def split: sum.splits)
  show ?thesis using general exact by blast
qed

theorem format_size_explicit_unit_witness:
  "(0::nat) < 1536 \<and> (1::nat) < 5 \<and> (1536::nat) < 2 ^ 53
   \<and> size_names ! 1 = ustr ''KB''
   \<and> format_size 1536 (ustr ''KB'') = Inr (ustr ''1.50 KB'')"
proof -
  have h: "(0::nat) < 1536" "(1::nat) < 5" "(1536::nat) < 2 ^ 53" by simp_all
  have f: "format_2f (of_nat 1536 / 1024 ^ 1) = ustr ''1.50''"
    by (simp add: format_2f_def round_half_even_def Let_def decimal.simps ustr_def)
  have u: "size_names ! 1 = ustr ''KB''" by (simp add: size_names_def)
  have "(1536::nat) < 2 ^ 53 \<longrightarrow> format_size 1536 (size_names ! 1) =
      Inr (format_2f (of_nat 1536 / 1024 ^ 1) @ ustr '' '' @ size_names ! 1)"
    by (rule conjunct2 [OF format_size_explicit_unit [OF h(1) h(2)]])
  with h(3) have "format_size 1536 (size_names ! 1) =
      Inr (format_2f (of_nat 1536 / 1024 ^ 1) @ ustr '' '' @ size_names ! 1)"
    by (rule rev_mp)
  then have "format_size 1536 (ustr ''KB'') = Inr (ustr ''1.50 KB'')"
    unfolding u f by (simp add: ustr_def)
  with h u show ?thesis by blast
qed

text \<open>
  C5, as the claim states it, fails at the byte count 0: in the unit mode KB the result is
  \<^verbatim>\<open>0 B\<close>, not the quotient with two decimals and the unit KB.
\<close>

theorem format_size_zero_explicit_unit_counterexample:
  "format_size 0 (ustr ''KB'') = Inr (ustr ''0 B'')
   \<and> format_size 0 (ustr ''KB'') \<noteq> Inr (format_2f (of_nat 0 / 1024 ^ 1) @ ustr '' '' @ ustr ''KB'')"
  by (simp add: format_size_def ustr_def)

text \<open>
  C6. The four reference equalities: a byte count of 0 is \<^verbatim>\<open>0 B\<close> (in whatever mode),
  1536 in auto mode is \<^verbatim>\<open>1.50 KB\<close>, 1048576 in auto mode is \<^verbatim>\<open>1.00 MB\<close>, and 500 in bytes
  mode is \<^verbatim>\<open>500 B\<close>.
\<close>

theorem format_size_reference_values:
  "format_size 0 fmt = Inr (ustr ''0 B'')
   \<and> format_size 1536 (ustr ''auto'') = Inr (ustr ''1.50 KB'')
   \<and> format_size 1048576 (ustr ''auto'') = Inr (ustr ''1.00 MB'')
   \<and> format_size 500 (ustr ''bytes'') = Inr (ustr ''500 B'')"
proof -
  have z: "format_size 0 fmt = Inr (ustr ''0 B'')"
    by (simp add: format_size_def decimal.simps ustr_def)
  have r1: "round_double (3 / 2) = Inr (3 / 2)"
    by (rule round_double_dyadic[of 3 1]) simp_all
  have r2: "round_double 1024 = Inr 1024"
    by (rule round_double_dyadic[of 1024 0]) simp_all
  have r3: "round_double 1 = Inr 1"
    by (rule round_double_dyadic[of 1 0]) simp_all
  have f1: "format_2f (3 / 2) = ustr ''1.50''"
    by (simp add: format_2f_def round_half_even_def Let_def decimal.simps ustr_def)
  have f2: "format_2f 1 = ustr ''1.00''"
    by (simp add: format_2f_def round_half_even_def Let_def decimal.simps ustr_def)
  have a: "format_size 1536 (ustr ''auto'') = Inr (ustr ''1.50 KB'')"
    by (simp add: format_size_def auto_loop.simps ge_1024_def truediv_1024_def r1
        render_2f_def to_float_def f1 size_names_def ustr_def)
  have b: "format_size 1048576 (ustr ''auto'') = Inr (ustr ''1.00 MB'')"
    by (simp add: format_size_def auto_loop.simps ge_1024_def truediv_1024_def r2 r3
        render_2f_def to_float_def f2 size_names_def ustr_def)
  have c: "format_size 500 (ustr ''bytes'') = Inr (ustr ''500 B'')"
    by (simp add: format_size_def decimal.simps ustr_def)
  show ?thesis using z a b c by blast
qed

text \<open>
  C10. For a byte count \<open>s\<close> from 1 to 1023 the auto mode divides nothing and renders
  \<open>s\<close> with two decimals and the unit B, which is not what the bytes mode renders
  (the undecorated integer); and in auto mode the result is \<^verbatim>\<open>0 B\<close> for the
  byte count 0 only.
\<close>

theorem format_size_auto_below_1024:
  assumes "1 \<le> s" and "s \<le> 1023"
  shows "format_size s (ustr ''auto'') = Inr (decimal s @ ustr ''.00 B'')
         \<and> format_size s (ustr ''bytes'') = Inr (decimal s @ ustr '' B'')
         \<and> format_size s (ustr ''auto'') \<noteq> format_size s (ustr ''bytes'')
         \<and> ((format_size t (ustr ''auto'') = Inr (ustr ''0 B'')) = (t = 0))"
proof -
  have a: "format_size s (ustr ''auto'') = Inr (decimal s @ ustr ''.00 B'')"
    using assms by (intro format_size_auto_small) auto
  have b: "format_size s (ustr ''bytes'') = Inr (decimal s @ ustr '' B'')"
    by (simp add: format_size_def)
  have c: "format_size s (ustr ''auto'') \<noteq> format_size s (ustr ''bytes'')"
    unfolding a b by (simp add: ustr_def)
  have d: "(format_size t (ustr ''auto'') = Inr (ustr ''0 B'')) = (t = 0)"
  proof (cases "t = 0")
    case True
    then show ?thesis by (simp add: format_size_def ustr_def)
  next
    case False
    then show ?thesis using format_size_auto_positive[of t] by simp
  qed
  show ?thesis using a b c d by blast
qed

theorem format_size_auto_below_1024_witness:
  "(1::nat) \<le> 500 \<and> (500::nat) \<le> 1023
   \<and> format_size 500 (ustr ''auto'') = Inr (ustr ''500.00 B'')
   \<and> format_size 500 (ustr ''bytes'') = Inr (ustr ''500 B'')
   \<and> format_size 500 (ustr ''auto'') \<noteq> format_size 500 (ustr ''bytes'')"
  using format_size_auto_below_1024[of 500] by (simp add: decimal.simps ustr_def)

section \<open>The walk and its lines\<close>

lemma initial_iff: "initial xs ys = (\<exists>zs. ys = xs @ zs)"
  by (auto simp: initial_def) (metis append_take_drop_id)

lemma initial_simps [simp]:
  "initial xs xs" "initial xs (xs @ zs)" "initial (xs @ ys) (xs @ zs) = initial ys zs"
  "initial [] ys"
  by (auto simp: initial_iff)

lemma initial_append: "initial xs ys \<Longrightarrow> initial xs (ys @ zs)"
  by (auto simp: initial_iff)

lemma initial_trans: "initial xs ys \<Longrightarrow> initial ys zs \<Longrightarrow> initial xs zs"
  by (auto simp: initial_iff)

lemma initial_appendD: "initial (xs @ ys) zs \<Longrightarrow> initial xs zs"
  by (auto simp: initial_iff)

lemma walk_simps [simp]:
  "result (tick w) = result w" "checks (tick w) = Suc (checks w)"
  "result (emit l w) = result w @ [l]" "checks (emit l w) = checks w"
  by (simp_all add: tick_def emit_def)

lemma unobserved_tick [simp]:
  "unobserved stop_event (tick w) = (unobserved stop_event w \<and> \<not> stop_is_set stop_event w)"
  by (auto simp: unobserved_def stop_is_set_def less_Suc_eq)

lemma unobserved_emit [simp]: "unobserved stop_event (emit l w) = unobserved stop_event w"
  by (simp add: unobserved_def)

lemma unobserved_mono:
  "checks w \<le> checks w' \<Longrightarrow> unobserved stop_event w' \<Longrightarrow> unobserved stop_event w"
  by (auto simp: unobserved_def)

lemma stays_set_later: "stays_set stop_event \<Longrightarrow> stop_event k \<Longrightarrow> k \<le> n \<Longrightarrow> stop_event n"
  by (induction n) (auto simp: stays_set_def le_Suc_eq)

lemma observed_is_set:
  "stays_set stop_event \<Longrightarrow> \<not> unobserved stop_event w \<Longrightarrow> stop_is_set stop_event w"
  using stays_set_later[of stop_event _ "checks w"]
  by (auto simp: unobserved_def stop_is_set_def)

lemma scan_directory_Entries:
  "\<not> stop_is_set stop_event w \<Longrightarrow> \<not> over_depth a d \<Longrightarrow>
   scan_dirs stop_event a (sort_key fst (dirs_of items)) 0 (length (dirs_of items))
     (length (files_of (include_files a) items)) prefix d (tick w) = (returned, w') \<Longrightarrow>
   scan_directory stop_event a (Entries items) prefix d w =
     (if returned then w'
      else if include_files a then
        scan_files stop_event a (sort_key fst (files_of (include_files a) items)) 0
          (length (files_of (include_files a) items)) prefix w'
      else w')"
  by (simp add: scan_directory.simps)

lemma files_of_excluded [simp]: "files_of False items = []"
  by (induction items rule: dirs_of.induct) auto

text \<open>The loop over the files.\<close>

lemma scan_files_stopped:
  "stop_is_set stop_event w \<Longrightarrow> result (scan_files stop_event a fs i nf prefix w) = result w"
  by (cases fs) auto

lemma scan_files_walk:
  "initial (result w) (result (scan_files stop_event a fs i nf prefix w))
   \<and> initial (result (scan_files stop_event a fs i nf prefix w)) (result w @ files_lines a fs i nf prefix)
   \<and> checks w \<le> checks (scan_files stop_event a fs i nf prefix w)
   \<and> (unobserved stop_event (scan_files stop_event a fs i nf prefix w) \<longrightarrow>
        result (scan_files stop_event a fs i nf prefix w) = result w @ files_lines a fs i nf prefix)"
proof (induction fs arbitrary: i w)
  case Nil
  then show ?case by simp
next
  case (Cons f fs)
  obtain file_name sz where f: "f = (file_name, sz)" by (cases f)
  show ?case
  proof (cases "stop_is_set stop_event w")
    case True
    then show ?thesis by (simp add: f)
  next
    case False
    define w1 where "w1 = emit (file_line a prefix (int i = int nf - 1) file_name sz) (tick w)"
    have step: "scan_files stop_event a (f # fs) i nf prefix w = scan_files stop_event a fs (i + 1) nf prefix w1"
      using False by (simp add: f w1_def)
    have r1: "result w1 = result w @ [file_line a prefix (int i = int nf - 1) file_name sz]"
      and c1: "checks w1 = Suc (checks w)"
      by (simp_all add: w1_def)
    from Cons.IH[where i = "i + 1" and w = w1] show ?thesis
      unfolding step
      by (auto simp: f r1 c1 dest: initial_appendD)
  qed
qed

text \<open>The walk itself.\<close>

lemma scan_dirs_stopped:
  "stop_is_set stop_event w \<Longrightarrow>
   result (snd (scan_dirs stop_event a ds i nd nf prefix d w)) = result w"
  by (cases ds) auto

lemma walked_refl: "walked stop_event w w []"
  by (simp add: walked_def)

lemma walked_tick: "stop_is_set stop_event w \<Longrightarrow> walked stop_event w (tick w) ls"
  by (simp add: walked_def)

lemma walked_emit: "\<not> stop_is_set stop_event w \<Longrightarrow> walked stop_event w (emit l (tick w)) [l]"
  by (simp add: walked_def)

lemma walked_step:
  "walked stop_event (emit l (tick w)) w' ls \<Longrightarrow> walked stop_event w w' (l # ls)"
  by (auto simp: walked_def dest: initial_appendD)

lemma walked_tick_step:
  "walked stop_event (tick w) w' ls \<Longrightarrow> walked stop_event w w' ls"
  by (auto simp: walked_def)

lemma walked_seq:
  assumes "walked stop_event w w1 ls1" and "walked stop_event w1 w2 ls2"
    and "stays_set stop_event \<Longrightarrow> \<not> unobserved stop_event w1 \<Longrightarrow> result w2 = result w1"
  shows "walked stop_event w w2 (ls1 @ ls2)"
  unfolding walked_def
proof
  assume st: "stays_set stop_event"
  show "initial (result w) (result w2) \<and> initial (result w2) (result w @ ls1 @ ls2)
      \<and> checks w \<le> checks w2
      \<and> (unobserved stop_event w2 \<longrightarrow> result w2 = result w @ ls1 @ ls2)"
  proof (cases "unobserved stop_event w1")
    case True
    then have r1: "result w1 = result w @ ls1" using assms(1) st by (simp add: walked_def)
    show ?thesis
      using assms(1,2) st by (auto simp: walked_def r1 dest: initial_appendD)
  next
    case False
    with st have r2: "result w2 = result w1" by (rule assms(3))
    have "\<not> unobserved stop_event w2"
      using False assms(2) st unobserved_mono[of w1 w2 stop_event] by (auto simp: walked_def)
    then show ?thesis
      using assms(1,2) st
      by (auto simp: walked_def r2 intro: initial_append[of _ "result w @ ls1", simplified])
  qed
qed

lemma scan_files_walked:
  "walked stop_event w (scan_files stop_event a fs i nf prefix w) (files_lines a fs i nf prefix)"
  using scan_files_walk[of w stop_event a fs i nf prefix] by (simp add: walked_def)

lemma scan_walked:
  "walked stop_event w (scan_directory stop_event a path prefix d w) (tree_lines a path prefix d)"
  "walked stop_event w' (snd (scan_dirs stop_event a ds i nd nf prefix' d' w'))
     (dirs_lines a ds i nd nf prefix' d')
   \<and> (fst (scan_dirs stop_event a ds i nd nf prefix' d' w') \<longrightarrow>
        \<not> unobserved stop_event (snd (scan_dirs stop_event a ds i nd nf prefix' d' w')))"
proof (induction stop_event a path prefix d w and stop_event a ds i nd nf prefix' d' w'
    rule: scan_directory_scan_dirs.induct)
  case (1 stop_event a path prefix current_depth w)
  show ?case
  proof (cases "stop_is_set stop_event w")
    case True
    then show ?thesis by (simp add: scan_directory.simps walked_tick)
  next
    case not_set: False
    show ?thesis
    proof (cases "over_depth a current_depth")
      case True
      then show ?thesis
        using not_set
        by (simp add: scan_directory.simps tree_lines.simps walked_tick_step walked_refl)
    next
      case in_depth: False
      show ?thesis
      proof (cases path)
        case PermissionError
        then show ?thesis
          using not_set in_depth
          by (simp add: scan_directory.simps tree_lines.simps walked_emit)
      next
        case (OSError msg)
        then show ?thesis
          using not_set in_depth
          by (simp add: scan_directory.simps tree_lines.simps walked_emit)
      next
        case (Entries items)
        define dirs where "dirs = sort_key fst (dirs_of items)"
        define files where "files = sort_key fst (files_of (include_files a) items)"
        obtain returned w1 where r:
          "scan_dirs stop_event a dirs 0 (length dirs) (length files) prefix current_depth (tick w)
             = (returned, w1)"
          by (cases "scan_dirs stop_event a dirs 0 (length dirs) (length files) prefix current_depth (tick w)")
        from "1.IH"[OF not_set in_depth Entries dirs_def files_def]
        have d1: "walked stop_event (tick w) w1
                    (dirs_lines a dirs 0 (length dirs) (length files) prefix current_depth)"
          and d2: "returned \<Longrightarrow> \<not> unobserved stop_event w1"
          by (simp_all add: r)
        have lines: "tree_lines a path prefix current_depth =
            dirs_lines a dirs 0 (length dirs) (length files) prefix current_depth
            @ files_lines a files 0 (length files) prefix"
          using in_depth Entries by (simp add: tree_lines.simps dirs_def files_def)
        have run: "scan_directory stop_event a path prefix current_depth w =
            (if returned then w1
             else if include_files a then scan_files stop_event a files 0 (length files) prefix w1
             else w1)"
          using scan_directory_Entries[OF not_set in_depth, of items prefix returned w1] r Entries
          by (simp add: dirs_def files_def)
        have "walked stop_event (tick w) (scan_directory stop_event a path prefix current_depth w)
            (dirs_lines a dirs 0 (length dirs) (length files) prefix current_depth
             @ files_lines a files 0 (length files) prefix)"
        proof (cases "\<not> returned \<and> include_files a")
          case True
          then have run': "scan_directory stop_event a path prefix current_depth w =
              scan_files stop_event a files 0 (length files) prefix w1"
            by (simp add: run)
          show ?thesis
            unfolding run'
            using d1 scan_files_walked
          proof (rule walked_seq)
            assume "stays_set stop_event" and "\<not> unobserved stop_event w1"
            then show "result (scan_files stop_event a files 0 (length files) prefix w1) = result w1"
              by (intro scan_files_stopped observed_is_set)
          qed
        next
          case False
          then have run': "scan_directory stop_event a path prefix current_depth w = w1"
            by (auto simp: run)
          have "returned \<or> files = []"
            using False by (auto simp: files_def)
          then show ?thesis
          proof
            assume returned
            then have "\<not> unobserved stop_event w1" by (rule d2)
            then show ?thesis
              unfolding run' using d1
              by (auto simp: walked_def intro: initial_append[of _ "_ @ _", simplified])
          next
            assume "files = []"
            then show ?thesis unfolding run' using d1 by simp
          qed
        qed
        then show ?thesis
          unfolding lines by (rule walked_tick_step)
      qed
    qed
  qed
next
  case (2 stop_event a i n_dirs n_files prefix current_depth w)
  show ?case by (simp add: walked_refl)
next
  case (3 stop_event a d rest i n_dirs n_files prefix current_depth w)
  show ?case
  proof (cases "stop_is_set stop_event w")
    case True
    then show ?thesis by (simp add: walked_tick)
  next
    case not_set: False
    define is_last_dir where "is_last_dir = (int i = int n_dirs - 1 \<and> n_files = 0)"
    define w1 where "w1 = emit (dir_line a prefix is_last_dir (fst d) (snd d)) (tick w)"
    define w2 where "w2 = scan_directory stop_event a (snd d) (new_prefix prefix is_last_dir)
        (current_depth + 1) w1"
    have run: "scan_dirs stop_event a (d # rest) i n_dirs n_files prefix current_depth w
        = scan_dirs stop_event a rest (i + 1) n_dirs n_files prefix current_depth w2"
      using not_set by (simp add: Let_def w2_def w1_def is_last_dir_def)
    have t: "walked stop_event w1 w2
        (tree_lines a (snd d) (new_prefix prefix is_last_dir) (current_depth + 1))"
      using "3.IH"(1)[OF not_set is_last_dir_def] by (simp add: w2_def w1_def)
    have rest: "walked stop_event w2
        (snd (scan_dirs stop_event a rest (i + 1) n_dirs n_files prefix current_depth w2))
        (dirs_lines a rest (i + 1) n_dirs n_files prefix current_depth)"
      and flag: "fst (scan_dirs stop_event a rest (i + 1) n_dirs n_files prefix current_depth w2)
        \<longrightarrow> \<not> unobserved stop_event
          (snd (scan_dirs stop_event a rest (i + 1) n_dirs n_files prefix current_depth w2))"
      using "3.IH"(2)[OF not_set is_last_dir_def] by (simp_all add: w2_def w1_def)
    have "walked stop_event w1
        (snd (scan_dirs stop_event a rest (i + 1) n_dirs n_files prefix current_depth w2))
        (tree_lines a (snd d) (new_prefix prefix is_last_dir) (current_depth + 1)
         @ dirs_lines a rest (i + 1) n_dirs n_files prefix current_depth)"
      using t rest
    proof (rule walked_seq)
      assume "stays_set stop_event" and "\<not> unobserved stop_event w2"
      then show "result (snd (scan_dirs stop_event a rest (i + 1) n_dirs n_files prefix current_depth w2))
          = result w2"
        by (intro scan_dirs_stopped observed_is_set)
    qed
    then have "walked stop_event w
        (snd (scan_dirs stop_event a rest (i + 1) n_dirs n_files prefix current_depth w2))
        (dirs_lines a (d # rest) i n_dirs n_files prefix current_depth)"
      unfolding w1_def by (simp add: walked_step is_last_dir_def)
    with flag show ?thesis
      unfolding run by blast
  qed
qed

lemma scan_lines_tree_lines: "scan_lines a path prefix d = tree_lines a path prefix d"
  using scan_walked(1)[of "\<lambda>k. False" "\<lparr>result = [], checks = 0\<rparr>" a path prefix d]
  by (simp add: scan_lines_def walked_def unobserved_def stays_set_def)

lemma map_upt_Suc: "map f [0..<Suc n] = f 0 # map (\<lambda>j. f (Suc j)) [0..<n]"
  by (simp only: upt_conv_Cons[of 0 "Suc n"] map_Suc_upt[symmetric] list.map map_map o_def
      zero_less_Suc if_True)

lemma files_lines_indexed:
  "files_lines a fs i nf prefix =
     map (\<lambda>j. file_line a prefix (int (i + j) = int nf - 1) (fst (fs ! j)) (snd (fs ! j)))
       [0..<length fs]"
proof (induction fs arbitrary: i)
  case Nil
  then show ?case by simp
next
  case (Cons f fs)
  obtain file_name sz where f: "f = (file_name, sz)" by (cases f)
  show ?case
    by (simp only: f files_lines.simps Cons.IH length_Cons map_upt_Suc) simp
qed

lemma dirs_lines_indexed:
  "dirs_lines a ds i nd nf prefix d =
     concat (map (\<lambda>j. dir_line a prefix (int (i + j) = int nd - 1 \<and> nf = 0) (fst (ds ! j)) (snd (ds ! j))
                       # tree_lines a (snd (ds ! j))
                           (new_prefix prefix (int (i + j) = int nd - 1 \<and> nf = 0)) (d + 1))
       [0..<length ds])"
proof (induction ds arbitrary: i)
  case Nil
  then show ?case by simp
next
  case (Cons x ds)
  show ?case
    by (simp only: dirs_lines.simps Cons.IH length_Cons map_upt_Suc) simp
qed

lemma segments_simps [simp]:
  "segments [] = []"
  "new_prefix (segments bs) b = segments (bs @ [b])"
  by (simp_all add: segments_def new_prefix_def)

lemma line_level_segments: "line_level (segments bs @ s) = length bs + line_level s"
  by (induction bs) (auto simp: segments_def bar_def blank_def)

lemma line_level_connector [simp]:
  "line_level (branch @ s) = 0" "line_level (corner @ s) = 0"
  by (simp_all add: branch_def corner_def bar_def blank_def)

lemma level_dir_line [simp]:
  "line_level (dir_line a (segments bs) is_last dir_name dir_path) = length bs"
  using line_level_segments[of bs] by (simp add: dir_line_def)

lemma level_file_line [simp]:
  "line_level (file_line a (segments bs) is_last file_name sz) = length bs"
  using line_level_segments[of bs] by (simp add: file_line_def)

lemma level_marker [simp]:
  "line_level (segments bs @ branch @ s) = length bs"
  using line_level_segments[of bs] by simp

lemma files_lines_level:
  "l \<in> set (files_lines a fs i nf (segments bs)) \<Longrightarrow> line_level l = length bs"
  by (induction fs arbitrary: i) auto

lemma tree_lines_level:
  "\<forall>l \<in> set (tree_lines a path prefix d). \<forall>bs. prefix = segments bs \<longrightarrow> length bs \<le> line_level l"
  "\<forall>l \<in> set (dirs_lines a ds i nd nf prefix' d'). \<forall>bs. prefix' = segments bs \<longrightarrow> length bs \<le> line_level l"
proof (induction a path prefix d and a ds i nd nf prefix' d' rule: tree_lines_dirs_lines.induct)
  case (1 a path prefix current_depth)
  show ?case
  proof (cases "over_depth a current_depth")
    case True
    then show ?thesis by (simp add: tree_lines.simps)
  next
    case False
    show ?thesis
    proof (cases path)
      case (Entries items)
      with False "1.IH" show ?thesis
        by (auto simp: tree_lines.simps dest: files_lines_level)
    qed (use False in \<open>auto simp: tree_lines.simps\<close>)
  qed
next
  case 2
  then show ?case by simp
next
  case (3 a d rest i n_dirs n_files prefix current_depth)
  show ?case
  proof (intro ballI allI impI)
    fix l bs
    assume l: "l \<in> set (dirs_lines a (d # rest) i n_dirs n_files prefix current_depth)"
      and p: "prefix = segments bs"
    from l consider
        "l = dir_line a prefix (int i = int n_dirs - 1 \<and> n_files = 0) (fst d) (snd d)"
      | "l \<in> set (tree_lines a (snd d)
            (new_prefix prefix (int i = int n_dirs - 1 \<and> n_files = 0)) (current_depth + 1))"
      | "l \<in> set (dirs_lines a rest (i + 1) n_dirs n_files prefix current_depth)"
      by auto
    then show "length bs \<le> line_level l"
    proof cases
      case 1
      then show ?thesis by (simp add: p)
    next
      case 2
      with "3.IH"(1) have "length (bs @ [int i = int n_dirs - 1 \<and> n_files = 0]) \<le> line_level l"
        using p by (metis segments_simps(2))
      then show ?thesis by simp
    next
      case 3
      with "3.IH"(2) p show ?thesis by blast
    qed
  qed
qed

lemma unlimited [simp]: "over_depth (a\<lparr>max_depth := None\<rparr>) d = False"
  by (simp add: over_depth_def)

lemma size_str_depth [simp]: "size_str (a\<lparr>max_depth := m\<rparr>) sz = size_str a sz"
  by (simp add: size_str_def split: option.splits)

lemma line_depth [simp]:
  "dir_line (a\<lparr>max_depth := m\<rparr>) prefix is_last n p = dir_line a prefix is_last n p"
  "file_line (a\<lparr>max_depth := m\<rparr>) prefix is_last n sz = file_line a prefix is_last n sz"
  by (simp_all add: dir_line_def file_line_def)

lemma files_lines_depth [simp]:
  "files_lines (a\<lparr>max_depth := m\<rparr>) fs i nf prefix = files_lines a fs i nf prefix"
  by (induction fs arbitrary: i) auto

lemma filter_files_lines:
  "int (length bs) \<le> N \<Longrightarrow>
   filter (\<lambda>l. int (line_level l) \<le> N) (files_lines a fs i nf (segments bs))
     = files_lines a fs i nf (segments bs)"
  by (auto simp: filter_id_conv dest: files_lines_level)

lemma depth_limit:
  "\<forall>N bs. max_depth a = Some N \<longrightarrow> prefix = segments bs \<longrightarrow> d = int (length bs) \<longrightarrow>
     tree_lines a path prefix d =
       filter (\<lambda>l. int (line_level l) \<le> N) (tree_lines (a\<lparr>max_depth := None\<rparr>) path prefix d)"
  "\<forall>N bs. max_depth a = Some N \<longrightarrow> prefix' = segments bs \<longrightarrow> d' = int (length bs) \<longrightarrow>
     d' \<le> N \<longrightarrow>
     dirs_lines a ds i nd nf prefix' d' =
       filter (\<lambda>l. int (line_level l) \<le> N)
         (dirs_lines (a\<lparr>max_depth := None\<rparr>) ds i nd nf prefix' d')"
proof (induction a path prefix d and a ds i nd nf prefix' d' rule: tree_lines_dirs_lines.induct)
  case (1 a path prefix current_depth)
  show ?case
  proof (intro allI impI)
    fix N bs
    assume m: "max_depth a = Some N" and p: "prefix = segments bs"
      and d: "current_depth = int (length bs)"
    show "tree_lines a path prefix current_depth =
       filter (\<lambda>l. int (line_level l) \<le> N)
         (tree_lines (a\<lparr>max_depth := None\<rparr>) path prefix current_depth)"
    proof (cases "over_depth a current_depth")
      case True
      then have "N < int (length bs)" using m d by (simp add: over_depth_def)
      then have "\<forall>l \<in> set (tree_lines (a\<lparr>max_depth := None\<rparr>) path prefix current_depth).
          \<not> int (line_level l) \<le> N"
        using tree_lines_level(1)[of "a\<lparr>max_depth := None\<rparr>" path prefix current_depth] p
        by fastforce
      then have "filter (\<lambda>l. int (line_level l) \<le> N)
          (tree_lines (a\<lparr>max_depth := None\<rparr>) path prefix current_depth) = []"
        by (simp add: filter_empty_conv)
      then show ?thesis using True by (simp add: tree_lines.simps)
    next
      case False
      then have le: "int (length bs) \<le> N" using m d by (simp add: over_depth_def)
      show ?thesis
      proof (cases path)
        case PermissionError
        then show ?thesis using False le p by (simp add: tree_lines.simps)
      next
        case (OSError msg)
        then show ?thesis using False le p by (simp add: tree_lines.simps)
      next
        case (Entries items)
        from "1.IH"[OF False Entries] m p d le
        have "dirs_lines a (sort_key fst (dirs_of items)) 0 (length (dirs_of items))
            (length (files_of (include_files a) items)) prefix current_depth =
          filter (\<lambda>l. int (line_level l) \<le> N)
            (dirs_lines (a\<lparr>max_depth := None\<rparr>) (sort_key fst (dirs_of items)) 0
              (length (dirs_of items)) (length (files_of (include_files a) items)) prefix
              current_depth)"
          by simp
        then show ?thesis
          using False Entries le p
          by (simp add: tree_lines.simps filter_files_lines)
      qed
    qed
  qed
next
  case 2
  then show ?case by simp
next
  case (3 a d rest i n_dirs n_files prefix current_depth)
  show ?case
  proof (intro allI impI)
    fix N bs
    assume m: "max_depth a = Some N" and p: "prefix = segments bs"
      and d: "current_depth = int (length bs)" and le: "current_depth \<le> N"
    define is_last where "is_last = (int i = int n_dirs - 1 \<and> n_files = 0)"
    have sub: "tree_lines a (snd d) (new_prefix prefix is_last) (current_depth + 1) =
        filter (\<lambda>l. int (line_level l) \<le> N)
          (tree_lines (a\<lparr>max_depth := None\<rparr>) (snd d) (new_prefix prefix is_last) (current_depth + 1))"
      using "3.IH"(1) m p d
      by (simp add: is_last_def) (metis length_append_singleton of_nat_Suc add.commute)
    have rest: "dirs_lines a rest (i + 1) n_dirs n_files prefix current_depth =
        filter (\<lambda>l. int (line_level l) \<le> N)
          (dirs_lines (a\<lparr>max_depth := None\<rparr>) rest (i + 1) n_dirs n_files prefix current_depth)"
      using "3.IH"(2) m p d le by simp
    show "dirs_lines a (d # rest) i n_dirs n_files prefix current_depth =
        filter (\<lambda>l. int (line_level l) \<le> N)
          (dirs_lines (a\<lparr>max_depth := None\<rparr>) (d # rest) i n_dirs n_files prefix current_depth)"
      using sub rest le d p by (simp add: is_last_def)
  qed
qed

section \<open>Claims about the scanner\<close>

lemma scan_proj:
  "scan_lines plain proj [] 0 =
     [branch @ ustr ''src/'', bar @ corner @ ustr ''a.txt'', corner @ ustr ''README.md'']"
  by (simp add: scan_lines_tree_lines proj_def plain_def tree_lines.simps over_depth_def
      dir_line_def file_line_def new_prefix_def size_str_def ustr_def)

lemma scan_lines_listing:
  assumes "\<not> over_depth a d"
    and "dirs = sort_key fst (dirs_of items)"
    and "files = sort_key fst (files_of (include_files a) items)"
    and "n = length dirs + length files"
  shows "scan_lines a (Entries items) prefix d =
           concat (map (\<lambda>k.
               (prefix @ (if Suc k = n then corner else branch) @ fst (dirs ! k) @ ustr ''/''
                  @ size_str a (Some (get_dir_size (snd (dirs ! k)))))
               # scan_lines a (snd (dirs ! k))
                   (prefix @ (if Suc k = n then blank else bar)) (d + 1))
             [0..<length dirs])
           @ map (\<lambda>k.
               prefix @ (if Suc (length dirs + k) = n then corner else branch) @ fst (files ! k)
                 @ size_str a (snd (files ! k)))
             [0..<length files]"
proof -
  have last_dir: "(int k = int (length dirs) - 1 \<and> files = []) = (Suc k = n)"
    if "k < length dirs" for k
    using that assms(4) by (cases files) auto
  have last_file: "(int k = int (length files) - 1) = (Suc (length dirs + k) = n)"
    if "k < length files" for k
    using that assms(4) by auto
  have "tree_lines a (Entries items) prefix d =
      dirs_lines a dirs 0 (length dirs) (length files) prefix d
      @ files_lines a files 0 (length files) prefix"
    using assms(1) by (simp add: tree_lines.simps assms(2,3))
  also have "dirs_lines a dirs 0 (length dirs) (length files) prefix d =
      concat (map (\<lambda>k.
          (prefix @ (if Suc k = n then corner else branch) @ fst (dirs ! k) @ ustr ''/''
             @ size_str a (Some (get_dir_size (snd (dirs ! k)))))
          # scan_lines a (snd (dirs ! k))
              (prefix @ (if Suc k = n then blank else bar)) (d + 1))
        [0..<length dirs])"
    unfolding dirs_lines_indexed
    by (intro arg_cong[where f = concat] map_cong refl)
      (simp add: last_dir dir_line_def new_prefix_def scan_lines_tree_lines)
  also have "files_lines a files 0 (length files) prefix =
      map (\<lambda>k.
          prefix @ (if Suc (length dirs + k) = n then corner else branch) @ fst (files ! k)
            @ size_str a (snd (files ! k)))
        [0..<length files]"
    unfolding files_lines_indexed
    by (intro map_cong refl) (simp add: last_file file_line_def)
  finally show ?thesis
    by (simp add: scan_lines_tree_lines)
qed

text \<open>
  C3. At every level (whatever prefix and depth the walk of a listing starts with, as long as
  the depth is within the limit), the lines of a scan that is not cancelled are: for each
  directory of the listing, in the order of their names, its line followed by the lines of
  its own listing; then one line for each file, in the order of their names. The entry
  that is last of directories and files together (a directory only if no file follows)
  has the corner connector and passes a blank group to its listing; every other entry has
  the branch connector and passes a bar.
\<close>

theorem listing_order:
  assumes "\<not> over_depth a d"
    and "dirs = sort_key fst (dirs_of items)"
    and "files = sort_key fst (files_of (include_files a) items)"
    and "n = length dirs + length files"
  shows "scan_lines a (Entries items) prefix d =
           concat (map (\<lambda>k.
               (prefix @ (if Suc k = n then corner else branch) @ fst (dirs ! k) @ ustr ''/''
                  @ size_str a (Some (get_dir_size (snd (dirs ! k)))))
               # scan_lines a (snd (dirs ! k))
                   (prefix @ (if Suc k = n then blank else bar)) (d + 1))
             [0..<length dirs])
           @ map (\<lambda>k.
               prefix @ (if Suc (length dirs + k) = n then corner else branch) @ fst (files ! k)
                 @ size_str a (snd (files ! k)))
             [0..<length files]
         \<and> sorted (map fst dirs) \<and> sorted (map fst files)
         \<and> mset dirs = mset (dirs_of items)
         \<and> mset files = mset (files_of (include_files a) items)"
proof -
  have "sorted (map fst dirs)" and "sorted (map fst files)"
    by (simp_all add: assms(2,3))
  moreover have "mset dirs = mset (dirs_of items)"
    and "mset files = mset (files_of (include_files a) items)"
    by (simp_all add: assms(2,3))
  ultimately show ?thesis
    using scan_lines_listing[OF assms, of prefix] by blast
qed

theorem listing_order_witness:
  "\<not> over_depth plain 0
   \<and> [(ustr ''src'', Entries [(ustr ''a.txt'', File (Some 10))])]
       = sort_key fst (dirs_of [(ustr ''README.md'', File (Some 5)),
           (ustr ''src'', Dir (Entries [(ustr ''a.txt'', File (Some 10))]))])
   \<and> [(ustr ''README.md'', Some 5)]
       = sort_key fst (files_of (include_files plain) [(ustr ''README.md'', File (Some 5)),
           (ustr ''src'', Dir (Entries [(ustr ''a.txt'', File (Some 10))]))])
   \<and> scan_lines plain proj [] 0 =
       [branch @ ustr ''src/''] @ scan_lines plain (Entries [(ustr ''a.txt'', File (Some 10))]) bar 1
       @ [corner @ ustr ''README.md'']"
proof -
  have d: "\<not> over_depth plain 0" by (simp add: over_depth_def plain_def)
  have dirs: "[(ustr ''src'', Entries [(ustr ''a.txt'', File (Some 10))])]
       = sort_key fst (dirs_of [(ustr ''README.md'', File (Some 5)),
           (ustr ''src'', Dir (Entries [(ustr ''a.txt'', File (Some 10))]))])"
    by simp
  have files: "[(ustr ''README.md'', Some 5)]
       = sort_key fst (files_of (include_files plain) [(ustr ''README.md'', File (Some 5)),
           (ustr ''src'', Dir (Entries [(ustr ''a.txt'', File (Some 10))]))])"
    by (simp add: plain_def)
  have n: "(2::nat) = length [(ustr ''src'', Entries [(ustr ''a.txt'', File (Some 10))])]
      + length [(ustr ''README.md'', Some (5::nat))]"
    by simp
  have "scan_lines plain proj [] 0 =
      [branch @ ustr ''src/''] @ scan_lines plain (Entries [(ustr ''a.txt'', File (Some 10))]) bar 1
      @ [corner @ ustr ''README.md'']"
    using conjunct1[OF listing_order[OF d dirs files n, of "[]"]]
    by (simp add: proj_def size_str_def plain_def ustr_def)
  with d dirs files show ?thesis by blast
qed

text \<open>
  C2. A scan with the depth limit \<open>N\<close> appends exactly the lines of the unlimited scan
  whose level is at most \<open>N\<close>, in the same order: every line through level \<open>N\<close>, and no
  line of a deeper level, be it an entry or the marker of a directory that cannot be
  listed. With the limit 0 these are the lines of the root's own entries, one for each.
  The level of a line is counted from 0 for the entries of the root.
\<close>

theorem depth_limit_levels:
  "scan_lines (a\<lparr>max_depth := Some N\<rparr>) folder [] 0 =
     filter (\<lambda>l. int (line_level l) \<le> N) (scan_lines (a\<lparr>max_depth := None\<rparr>) folder [] 0)
   \<and> scan_lines (a\<lparr>max_depth := Some 0\<rparr>) (Entries items) [] 0 =
       (let dirs = sort_key fst (dirs_of items);
            files = sort_key fst (files_of (include_files a) items);
            n = length dirs + length files
        in map (\<lambda>k. (if Suc k = n then corner else branch) @ fst (dirs ! k) @ ustr ''/''
                       @ size_str a (Some (get_dir_size (snd (dirs ! k)))))
             [0..<length dirs]
           @ map (\<lambda>k. (if Suc (length dirs + k) = n then corner else branch) @ fst (files ! k)
                         @ size_str a (snd (files ! k)))
               [0..<length files])"
proof -
  have limit: "scan_lines (a\<lparr>max_depth := Some N\<rparr>) folder [] 0 =
     filter (\<lambda>l. int (line_level l) \<le> N) (scan_lines (a\<lparr>max_depth := None\<rparr>) folder [] 0)"
    using depth_limit(1)[of "a\<lparr>max_depth := Some N\<rparr>" "[]" 0 folder]
    by (simp add: scan_lines_tree_lines)
  define a0 where "a0 = a\<lparr>max_depth := Some 0\<rparr>"
  define dirs where "dirs = sort_key fst (dirs_of items)"
  define files where "files = sort_key fst (files_of (include_files a0) items)"
  define n where "n = length dirs + length files"
  have top: "\<not> over_depth a0 0" and below: "over_depth a0 1"
    by (simp_all add: over_depth_def a0_def)
  have none: "scan_lines a0 path prefix 1 = []" for path prefix
    using below by (simp add: scan_lines_tree_lines tree_lines.simps)
  have "scan_lines a0 (Entries items) [] 0 =
      map (\<lambda>k. (if Suc k = n then corner else branch) @ fst (dirs ! k) @ ustr ''/''
                  @ size_str a (Some (get_dir_size (snd (dirs ! k)))))
        [0..<length dirs]
      @ map (\<lambda>k. (if Suc (length dirs + k) = n then corner else branch) @ fst (files ! k)
                   @ size_str a (snd (files ! k)))
          [0..<length files]"
    using scan_lines_listing[OF top dirs_def files_def n_def, of "[]"]
    by (simp add: none a0_def [symmetric] concat_map_singleton) (simp add: a0_def)
  then have direct: "scan_lines (a\<lparr>max_depth := Some 0\<rparr>) (Entries items) [] 0 =
       (let dirs = sort_key fst (dirs_of items);
            files = sort_key fst (files_of (include_files a) items);
            n = length dirs + length files
        in map (\<lambda>k. (if Suc k = n then corner else branch) @ fst (dirs ! k) @ ustr ''/''
                       @ size_str a (Some (get_dir_size (snd (dirs ! k)))))
             [0..<length dirs]
           @ map (\<lambda>k. (if Suc (length dirs + k) = n then corner else branch) @ fst (files ! k)
                         @ size_str a (snd (files ! k)))
               [0..<length files])"
    by (simp add: Let_def a0_def dirs_def files_def n_def)
  show ?thesis using limit direct by blast
qed

text \<open>
  An instance: a directory \<^verbatim>\<open>d\<close> holding a directory \<^verbatim>\<open>x\<close> that cannot be listed.
  Without a limit the scan ends with the marker of \<^verbatim>\<open>x\<close> at level 2; with the limit 1
  the walk does not enter \<^verbatim>\<open>x\<close> and there is no marker; with the limit 0 only \<^verbatim>\<open>d\<close>
  is listed.
\<close>

lemma depth_limit_example:
  "scan_lines plain (Entries [(ustr ''d'', Dir (Entries [(ustr ''x'', Dir PermissionError)]))]) [] 0
     = [corner @ ustr ''d/'', blank @ corner @ ustr ''x/'',
        blank @ blank @ branch @ ustr ''[Access Denied]'']
   \<and> scan_lines (plain\<lparr>max_depth := Some 1\<rparr>)
        (Entries [(ustr ''d'', Dir (Entries [(ustr ''x'', Dir PermissionError)]))]) [] 0
     = [corner @ ustr ''d/'', blank @ corner @ ustr ''x/'']
   \<and> scan_lines (plain\<lparr>max_depth := Some 0\<rparr>)
        (Entries [(ustr ''d'', Dir (Entries [(ustr ''x'', Dir PermissionError)]))]) [] 0
     = [corner @ ustr ''d/'']"
  by (simp add: scan_lines_tree_lines plain_def tree_lines.simps over_depth_def
      dir_line_def file_line_def new_prefix_def size_str_def ustr_def)

text \<open>
  C7. Let the stop event stay set once a check has found it set. From a state in which a
  check finds it set, the walk of a directory, the rest of a loop over directories and the
  rest of a loop over files each return with the result as it is: no line is appended
  after the check that finds the event set. What the walk has appended is an initial part
  of what it appends when the event is never set. And if any check, from the first of the
  walk to the one the thread makes after the walk, finds the event set, the thread reports
  the status \<^verbatim>\<open>Scan cancelled\<close>, which is no completion status, and does not invoke the
  result callback.
\<close>

theorem cancelled_scan:
  assumes "stays_set stop_event"
  shows "(stop_is_set stop_event w \<longrightarrow>
      result (scan_directory stop_event a path prefix d w) = result w
      \<and> result (snd (scan_dirs stop_event a ds i n_dirs n_files prefix d w)) = result w
      \<and> result (scan_files stop_event a fs j n_files prefix w) = result w)
   \<and> take (length (result (scan_directory stop_event a folder [] 0 \<lparr>result = [], checks = 0\<rparr>)))
        (scan_lines a folder [] 0)
      = result (scan_directory stop_event a folder [] 0 \<lparr>result = [], checks = 0\<rparr>)
   \<and> ((\<exists>k \<le> checks (scan_directory stop_event a folder [] 0 \<lparr>result = [], checks = 0\<rparr>).
         stop_event k) \<longrightarrow>
        scan_folder_thread stop_event folder a =
          \<lparr>statuses = [ustr ''Scanning folder structure...'', ustr ''Scan cancelled''],
           delivered = None\<rparr>)
   \<and> ustr ''Scan cancelled'' \<noteq> ustr ''Scan complete. Found '' @ decimal n @ ustr '' items.''"
proof -
  have stopped: "result (scan_directory stop_event a path prefix d w) = result w
      \<and> result (snd (scan_dirs stop_event a ds i n_dirs n_files prefix d w)) = result w
      \<and> result (scan_files stop_event a fs j n_files prefix w) = result w"
    if set: "stop_is_set stop_event w"
  proof -
    from set have "scan_directory stop_event a path prefix d w = tick w"
      by (simp add: scan_directory.simps)
    with set show ?thesis
      by (simp add: scan_dirs_stopped scan_files_stopped)
  qed
  have "walked stop_event \<lparr>result = [], checks = 0\<rparr>
      (scan_directory stop_event a folder [] 0 \<lparr>result = [], checks = 0\<rparr>)
      (tree_lines a folder [] 0)"
    by (rule scan_walked(1))
  with assms have part:
    "take (length (result (scan_directory stop_event a folder [] 0 \<lparr>result = [], checks = 0\<rparr>)))
      (scan_lines a folder [] 0)
      = result (scan_directory stop_event a folder [] 0 \<lparr>result = [], checks = 0\<rparr>)"
    by (simp add: walked_def initial_def scan_lines_tree_lines)
  have thread: "scan_folder_thread stop_event folder a =
      \<lparr>statuses = [ustr ''Scanning folder structure...'', ustr ''Scan cancelled''],
       delivered = None\<rparr>"
    if "\<exists>k \<le> checks (scan_directory stop_event a folder [] 0 \<lparr>result = [], checks = 0\<rparr>).
      stop_event k"
  proof -
    from that assms
    have "stop_event (checks (scan_directory stop_event a folder [] 0 \<lparr>result = [], checks = 0\<rparr>))"
      by (auto dest: stays_set_later)
    then show ?thesis
      by (simp add: scan_folder_thread_def stop_is_set_def Let_def)
  qed
  have distinct: "ustr ''Scan cancelled'' \<noteq> ustr ''Scan complete. Found '' @ decimal n @ ustr '' items.''"
    by (simp add: ustr_def)
  show ?thesis using stopped part thread distinct by blast
qed

theorem cancelled_scan_witness:
  "stays_set (\<lambda>k. 3 \<le> k)
   \<and> stop_is_set (\<lambda>k. 3 \<le> k) \<lparr>result = [branch @ ustr ''src/''], checks = 3\<rparr>
   \<and> result (scan_directory (\<lambda>k. 3 \<le> k) plain proj [] 0
         \<lparr>result = [branch @ ustr ''src/''], checks = 3\<rparr>)
       = [branch @ ustr ''src/'']
   \<and> scan_directory (\<lambda>k. 3 \<le> k) plain proj [] 0 \<lparr>result = [], checks = 0\<rparr>
       = \<lparr>result = [branch @ ustr ''src/''], checks = 5\<rparr>
   \<and> (\<exists>k \<le> checks (scan_directory (\<lambda>k. 3 \<le> k) plain proj [] 0 \<lparr>result = [], checks = 0\<rparr>).
        3 \<le> k)
   \<and> scan_folder_thread (\<lambda>k. 3 \<le> k) proj plain =
       \<lparr>statuses = [ustr ''Scanning folder structure...'', ustr ''Scan cancelled''],
        delivered = None\<rparr>"
proof -
  have st: "stays_set (\<lambda>k. 3 \<le> k)" by (simp add: stays_set_def)
  have run: "scan_directory (\<lambda>k. 3 \<le> k) plain proj [] 0 \<lparr>result = [], checks = 0\<rparr>
      = \<lparr>result = [branch @ ustr ''src/''], checks = 5\<rparr>"
    by (simp add: proj_def plain_def scan_directory.simps stop_is_set_def over_depth_def tick_def
        emit_def dir_line_def file_line_def new_prefix_def size_str_def ustr_def)
  have late: "stop_is_set (\<lambda>k. 3 \<le> k) \<lparr>result = [branch @ ustr ''src/''], checks = 3\<rparr>"
    by (simp add: stop_is_set_def)
  have mid: "\<exists>k \<le> checks (scan_directory (\<lambda>k. 3 \<le> k) plain proj [] 0 \<lparr>result = [], checks = 0\<rparr>).
      3 \<le> k"
    unfolding run by (intro exI[of _ 3]) simp
  from cancelled_scan[OF st, of "\<lparr>result = [branch @ ustr ''src/''], checks = 3\<rparr>" plain proj
      "[]" 0 "[]" 0 0 0 "[]" 0 proj 0]
  show ?thesis
    using st late mid by (simp add: run)
qed

text \<open>
  C8, as the code has it. For a folder field that is not empty after stripping and names
  a path that does not exist or is no directory, \<^verbatim>\<open>FolderTreeViewer.scan_folder\<close> reports
  the status \<^verbatim>\<open>Invalid folder path.\<close>, shows an error dialog and returns before the scanner is
  started: there is no scan, hence no line of output.
\<close>

theorem invalid_path_rejected:
  assumes "strip (folder_var inp) \<noteq> []"
    and "fs (strip (folder_var inp)) = None \<or> (\<exists>sz. fs (strip (folder_var inp)) = Some (File sz))"
  shows "status_texts (viewer_scan_folder stop_event fs inp) = [ustr ''Invalid folder path.'']
         \<and> error_dialogs (viewer_scan_folder stop_event fs inp) =
             [if fs (strip (folder_var inp)) = None
              then ustr ''The selected folder does not exist.''
              else ustr ''The selected path is not a folder.'']
         \<and> scan (viewer_scan_folder stop_event fs inp) = None"
  using assms by (auto simp: viewer_scan_folder_def rejected_def Let_def)

theorem invalid_path_rejected_witness:
  "strip (folder_var no_such_folder) \<noteq> []
   \<and> Map.empty (strip (folder_var no_such_folder)) = (None :: fsobj option)
   \<and> viewer_scan_folder (\<lambda>k. False) Map.empty no_such_folder =
       \<lparr>status_texts = [ustr ''Invalid folder path.''],
        error_dialogs = [ustr ''The selected folder does not exist.''],
        scan = None\<rparr>"
proof -
  have s: "strip (folder_var no_such_folder) \<noteq> []"
    by (simp add: no_such_folder_def strip_def isspace_def ustr_def)
  have m: "Map.empty (strip (folder_var no_such_folder)) = (None :: fsobj option)
           \<or> (\<exists>sz. Map.empty (strip (folder_var no_such_folder)) = Some (File sz))"
    by simp
  from invalid_path_rejected[OF s m, of "\<lambda>k. False"] show ?thesis
    using s by (cases "viewer_scan_folder (\<lambda>k. False) Map.empty no_such_folder") simp
qed

text \<open>
  C8, as the claim states it, fails for the empty folder field: the empty path does not
  exist, and the status is \<^verbatim>\<open>Please select a folder first.\<close>, with no error dialog.
\<close>

theorem empty_path_counterexample:
  "Map.empty (strip (folder_var (no_such_folder\<lparr>folder_var := []\<rparr>))) = (None :: fsobj option)
   \<and> viewer_scan_folder (\<lambda>k. False) Map.empty (no_such_folder\<lparr>folder_var := []\<rparr>) =
       \<lparr>status_texts = [ustr ''Please select a folder first.''], error_dialogs = [], scan = None\<rparr>
   \<and> ustr ''Please select a folder first.'' \<noteq> ustr ''Invalid folder path.''"
  by (simp add: viewer_scan_folder_def strip_def ustr_def)

text \<open>
  The scanner does not check its root: started on a path that cannot be listed it
  appends an error line and completes.
\<close>

lemma scanner_does_not_validate:
  "scan_folder_thread (\<lambda>k. False) (OSError msg) plain =
     \<lparr>statuses = [ustr ''Scanning folder structure...'', ustr ''Scan complete. Found 1 items.''],
      delivered = Some (branch @ ustr ''[Error: '' @ msg @ ustr '']'')\<rparr>"
  by (simp add: scan_folder_thread_def scan_directory.simps stop_is_set_def over_depth_def
      plain_def decimal.simps ustr_def)

section \<open>The shape of parsed items\<close>

lemma well_formed_children:
  "well_formed x \<Longrightarrow> children x = Some cs \<Longrightarrow> kind x = ustr ''directory'' \<and> list_all well_formed cs"
  by (cases x) auto

lemma list_all_update:
  "list_all P xs \<Longrightarrow> P x \<Longrightarrow> list_all P (xs[i := x])"
  by (auto simp: list_all_iff dest: set_update_subset_insert [THEN subsetD])

lemma append_at_well_formed:
  "list_all well_formed ns \<Longrightarrow> well_formed item \<Longrightarrow> list_all well_formed (append_at p item ns)"
proof (induction p arbitrary: ns)
  case Nil
  then show ?case by simp
next
  case (Cons i p)
  show ?case
  proof (cases "i < length ns")
    case False
    then show ?thesis using Cons.prems by simp
  next
    case True
    then have wf_i: "well_formed (ns ! i)"
      using Cons.prems(1) by (simp add: list_all_length)
    show ?thesis
    proof (cases "children (ns ! i)")
      case None
      then show ?thesis using Cons.prems True by simp
    next
      case (Some cs)
      from well_formed_children[OF wf_i Some]
      have k: "kind (ns ! i) = ustr ''directory''" and cs: "list_all well_formed cs" by auto
      have "list_all well_formed (append_at p item cs)"
        using cs Cons.prems(2) by (rule Cons.IH)
      then have "well_formed (Node (name (ns ! i)) (kind (ns ! i)) (Some (append_at p item cs)))"
        using k by simp
      then show ?thesis
        using Cons.prems(1) True Some by (simp add: list_all_update)
    qed
  qed
qed

lemma parse_line_well_formed:
  assumes "list_all well_formed (forest st)"
  shows "list_all well_formed (forest (parse_line st line))"
proof -
  have dir_item: "well_formed (Node n (ustr ''directory'') (Some []))" for n
    by simp
  have file_item: "well_formed (Node n (ustr ''file'') None)" for n
    by (simp add: ustr_def)
  show ?thesis
    using assms
    by (auto simp: parse_line_def Let_def
        intro!: append_at_well_formed dir_item file_item
        split: option.splits list.splits prod.splits simp del: well_formed.simps)
qed

lemma foldl_parse_line_well_formed:
  "list_all well_formed (forest st) \<Longrightarrow> list_all well_formed (forest (foldl parse_line st lines))"
  by (induction lines arbitrary: st) (simp_all add: parse_line_well_formed)

text \<open>Every entry line adds one item, through a reference that exists.\<close>

lemma count_nodes_children:
  "children x = Some cs \<Longrightarrow> count_nodes x = Suc (forest_size cs)"
  by (cases x) (simp add: forest_size_def)

lemma forest_size_update:
  "i < length ns \<Longrightarrow>
   forest_size (ns[i := x]) + count_nodes (ns ! i) = forest_size ns + count_nodes x"
  unfolding forest_size_def
proof (induction ns arbitrary: i)
  case Nil
  then show ?case by simp
next
  case (Cons y ns)
  show ?case
  proof (cases i)
    case 0
    then show ?thesis by simp
  next
    case (Suc k)
    with Cons.prems have "k < length ns" by simp
    from Cons.IH[OF this] show ?thesis by (simp add: Suc)
  qed
qed

lemma append_at_size:
  "valid_ref q ns \<Longrightarrow> forest_size (append_at q item ns) = forest_size ns + count_nodes item"
proof (induction q arbitrary: ns)
  case Nil
  then show ?case by (simp add: forest_size_def)
next
  case (Cons i q)
  then obtain cs where i: "i < length ns" and c: "children (ns ! i) = Some cs"
    and v: "valid_ref q cs"
    by (auto split: option.splits)
  have "forest_size (append_at q item cs) = forest_size cs + count_nodes item"
    using v by (rule Cons.IH)
  then have "count_nodes (Node (name (ns ! i)) (kind (ns ! i)) (Some (append_at q item cs)))
      = count_nodes (ns ! i) + count_nodes item"
    using count_nodes_children[OF c] by (simp add: forest_size_def)
  then show ?case
    using i c forest_size_update[of i ns
        "Node (name (ns ! i)) (kind (ns ! i)) (Some (append_at q item cs))"]
    by simp
qed

lemma append_at_keeps_ref:
  "valid_ref p ns \<Longrightarrow> valid_ref p (append_at q item ns)"
proof (induction q arbitrary: p ns)
  case Nil
  then show ?case by (cases p) (auto simp: nth_append split: option.splits)
next
  case (Cons j q)
  show ?case
  proof (cases p)
    case Nil
    then show ?thesis by simp
  next
    case (Cons i p')
    with Cons.prems obtain cs where i: "i < length ns" and c: "children (ns ! i) = Some cs"
      and v: "valid_ref p' cs"
      by (auto split: option.splits)
    show ?thesis
    proof (cases "j < length ns \<and> children (ns ! j) \<noteq> None")
      case False
      then show ?thesis using Cons.prems by (auto split: option.splits)
    next
      case True
      then obtain ds where j: "j < length ns" and d: "children (ns ! j) = Some ds" by auto
      show ?thesis
      proof (cases "i = j")
        case True
        then have "valid_ref p' (append_at q item cs)"
          using v by (intro Cons.IH)
        then show ?thesis
          using True i c d Cons by simp
      next
        case False
        then show ?thesis
          using i j c d v Cons by simp
      qed
    qed
  qed
qed

lemma append_at_new_ref:
  "valid_ref p ns \<Longrightarrow> children item = Some cs \<Longrightarrow>
   valid_ref (p @ [length (list_at p ns)]) (append_at p item ns)"
proof (induction p arbitrary: ns)
  case Nil
  then show ?case by (simp add: nth_append)
next
  case (Cons i p)
  then obtain ds where i: "i < length ns" and c: "children (ns ! i) = Some ds"
    and v: "valid_ref p ds"
    by (auto split: option.splits)
  from Cons.IH[OF v Cons.prems(2)] show ?case
    using i c by simp
qed

lemma pop_frames_subset: "set (pop_frames n st) \<subseteq> set st"
  by (induction n st rule: pop_frames.induct) auto

lemma pop_frames_nonempty: "st \<noteq> [] \<Longrightarrow> pop_frames n st \<noteq> []"
  by (induction n st rule: pop_frames.induct) auto

lemma parse_line_counts:
  assumes "stack_ok st"
  shows "stack_ok (parse_line st line)
     \<and> forest_size (forest (parse_line st line))
         = forest_size (forest st) + (if is_entry_line line then 1 else 0)"
proof (cases "is_entry_line line")
  case False
  then have "parse_line st line = st"
    by (auto simp: parse_line_def is_entry_line_def)
  with assms False show ?thesis by simp
next
  case True
  then obtain item_name where s: "strip line \<noteq> []" and l: "item_label (strip line) = Some item_name"
    by (auto simp: is_entry_line_def)
  define is_dir where "is_dir = endswith item_name (ustr ''/'')"
  define item where "item = Node (rstrip_slash (without_size item_name))
      (if is_dir then ustr ''directory'' else ustr ''file'') (if is_dir then Some [] else None)"
  define stack' where "stack' = pop_frames (leading_whitespace line) (stack st)"
  have ne: "stack' \<noteq> []"
    using assms by (simp add: stack'_def stack_ok_def pop_frames_nonempty)
  then obtain current_list threshold below where top: "stack' = (current_list, threshold) # below"
    by (cases stack') auto
  have sub: "set stack' \<subseteq> set (stack st)"
    by (simp add: stack'_def pop_frames_subset)
  have refs: "\<forall>f \<in> set stack'. valid_ref (fst f) (forest st)"
    using assms sub by (auto simp: stack_ok_def)
  then have cur: "valid_ref current_list (forest st)" by (simp add: top)
  define forest' where "forest' = append_at current_list item (forest st)"
  have run: "parse_line st line =
      (if is_dir then
         \<lparr>forest = forest',
          stack = (current_list @ [length (list_at current_list (forest st))],
                   leading_whitespace line + 4) # stack'\<rparr>
       else \<lparr>forest = forest', stack = stack'\<rparr>)"
    using s l top
    by (simp add: parse_line_def Let_def is_dir_def item_def stack'_def forest'_def)
  have one: "count_nodes item = 1" by (simp add: item_def)
  have size: "forest_size forest' = forest_size (forest st) + 1"
    using append_at_size[OF cur, of item] by (simp add: forest'_def one)
  have kept: "\<forall>f \<in> set stack'. valid_ref (fst f) forest'"
    using refs by (auto simp: forest'_def intro: append_at_keeps_ref)
  have new: "valid_ref (current_list @ [length (list_at current_list (forest st))]) forest'"
    if is_dir
    using that append_at_new_ref[OF cur, of item "[]"] by (simp add: forest'_def item_def)
  show ?thesis
    using True size kept new ne by (auto simp: run stack_ok_def)
qed

lemma foldl_parse_line_counts:
  "stack_ok st \<Longrightarrow>
   forest_size (forest (foldl parse_line st lines))
     = forest_size (forest st) + length (filter is_entry_line lines)"
proof (induction lines arbitrary: st)
  case Nil
  then show ?case by simp
next
  case (Cons line lines)
  from parse_line_counts[OF Cons.prems, of line]
  have ok: "stack_ok (parse_line st line)"
    and n: "forest_size (forest (parse_line st line))
         = forest_size (forest st) + (if is_entry_line line then 1 else 0)"
    by auto
  from Cons.IH[OF ok] n show ?case by simp
qed

lemma parsed_forest_size:
  "forest_size (parse_tree_to_json lines) = length (filter is_entry_line (skip_header lines))"
  using foldl_parse_line_counts[of "\<lparr>forest = [], stack = [([], 0)]\<rparr>" "skip_header lines"]
  by (simp add: parse_tree_to_json_def stack_ok_def forest_size_def)

section \<open>Claims about the tree codec\<close>

text \<open>
  C9. Every item of the forest \<^verbatim>\<open>_parse_tree_to_json\<close> returns, at any depth, has the type
  \<^verbatim>\<open>directory\<close> or \<^verbatim>\<open>file\<close> and carries the key \<^verbatim>\<open>children\<close> exactly when its type is
  \<^verbatim>\<open>directory\<close>. The result is the list of the top-level items itself: the forest
  holds one item for each line that is an entry and nothing besides, and it is empty when
  there are no lines.
\<close>

theorem parsed_nodes_well_formed:
  "list_all well_formed (parse_tree_to_json lines)
   \<and> forest_size (parse_tree_to_json lines) = length (filter is_entry_line (skip_header lines))
   \<and> parse_tree_to_json [] = []"
proof -
  have "list_all well_formed (parse_tree_to_json lines)"
    by (simp add: parse_tree_to_json_def foldl_parse_line_well_formed)
  moreover have "parse_tree_to_json [] = []"
    by (simp add: parse_tree_to_json_def skip_header_def)
  ultimately show ?thesis
    using parsed_forest_size[of lines] by blast
qed

theorem parsed_nodes_well_formed_witness:
  "parse_tree_to_json [ustr ''d/'', ustr ''     f'', ustr ''x'']
     = [Node (ustr ''d'') (ustr ''directory'') (Some [Node (ustr ''f'') (ustr ''file'') None]),
        Node (ustr ''x'') (ustr ''file'') None]
   \<and> list_all well_formed
        [Node (ustr ''d'') (ustr ''directory'') (Some [Node (ustr ''f'') (ustr ''file'') None]),
         Node (ustr ''x'') (ustr ''file'') None]"
proof -
  have p: "parse_tree_to_json [ustr ''d/'', ustr ''     f'', ustr ''x'']
     = [Node (ustr ''d'') (ustr ''directory'') (Some [Node (ustr ''f'') (ustr ''file'') None]),
        Node (ustr ''x'') (ustr ''file'') None]"
    by (simp add: parse_tree_to_json_def skip_header_def parse_line_def strip_def isspace_def
        startswith_def endswith_def item_label_def without_size_def size_match_def
        closing_bracket_def leading_whitespace_def rstrip_slash_def
        ustr_def Let_def branch_def bar_def corner_def)
  from conjunct1[OF parsed_nodes_well_formed[of "[ustr ''d/'', ustr ''     f'', ustr ''x'']"]]
  show ?thesis unfolding p by blast
qed

text \<open>
  C1 on the example of the specification: the folder with the directory \<^verbatim>\<open>src\<close>, the file
  \<^verbatim>\<open>a.txt\<close> in it, and the file \<^verbatim>\<open>README.md\<close>. The scan renders the three lines of the
  example; parsing them gives \<^verbatim>\<open>src\<close> without children and \<^verbatim>\<open>README.md\<close>, and
  \<^verbatim>\<open>a.txt\<close> is gone: its line begins with the bar, which is no whitespace, so the line
  counts as a connector line. Under a last directory the line of a child begins with four
  spaces; its indentation 4 is not above the threshold 4 of the frame of its parent, so
  the frame is popped and the child lands beside its parent. And a directory line with a
  size suffix does not end with a slash, so the item is a file.
\<close>

theorem round_trip_example:
  "scan_lines plain proj [] 0 =
     [branch @ ustr ''src/'', bar @ corner @ ustr ''a.txt'', corner @ ustr ''README.md'']
   \<and> parse_tree_to_json (scan_lines plain proj [] 0) =
       [Node (ustr ''src'') (ustr ''directory'') (Some []),
        Node (ustr ''README.md'') (ustr ''file'') None]
   \<and> scan_lines plain (Entries [(ustr ''src'', Dir (Entries [(ustr ''a.txt'', File (Some 10))]))]) [] 0 =
       [corner @ ustr ''src/'', blank @ corner @ ustr ''a.txt'']
   \<and> parse_tree_to_json [corner @ ustr ''src/'', blank @ corner @ ustr ''a.txt''] =
       [Node (ustr ''src'') (ustr ''directory'') (Some []),
        Node (ustr ''a.txt'') (ustr ''file'') None]
   \<and> parse_tree_to_json [corner @ ustr ''src/ [10.00 B]''] =
       [Node (ustr ''src'') (ustr ''file'') None]"
proof -
  have s1: "scan_lines plain proj [] 0 =
     [branch @ ustr ''src/'', bar @ corner @ ustr ''a.txt'', corner @ ustr ''README.md'']"
    by (rule scan_proj)
  have p1: "parse_tree_to_json
      [branch @ ustr ''src/'', bar @ corner @ ustr ''a.txt'', corner @ ustr ''README.md''] =
       [Node (ustr ''src'') (ustr ''directory'') (Some []),
        Node (ustr ''README.md'') (ustr ''file'') None]"
    by (simp add: parse_tree_to_json_def skip_header_def parse_line_def strip_def isspace_def
        startswith_def endswith_def item_label_def without_size_def size_match_def
        closing_bracket_def leading_whitespace_def rstrip_slash_def
        ustr_def Let_def branch_def bar_def corner_def)
  have s2: "scan_lines plain (Entries [(ustr ''src'', Dir (Entries [(ustr ''a.txt'', File (Some 10))]))]) [] 0 =
       [corner @ ustr ''src/'', blank @ corner @ ustr ''a.txt'']"
    by (simp add: scan_lines_tree_lines plain_def tree_lines.simps over_depth_def
        dir_line_def file_line_def new_prefix_def size_str_def ustr_def)
  have p2: "parse_tree_to_json [corner @ ustr ''src/'', blank @ corner @ ustr ''a.txt''] =
       [Node (ustr ''src'') (ustr ''directory'') (Some []),
        Node (ustr ''a.txt'') (ustr ''file'') None]"
    by (simp add: parse_tree_to_json_def skip_header_def parse_line_def strip_def isspace_def
        startswith_def endswith_def item_label_def without_size_def size_match_def
        closing_bracket_def leading_whitespace_def rstrip_slash_def
        ustr_def Let_def branch_def bar_def corner_def blank_def)
  have p3: "parse_tree_to_json [corner @ ustr ''src/ [10.00 B]''] =
       [Node (ustr ''src'') (ustr ''file'') None]"
    by (simp add: parse_tree_to_json_def skip_header_def parse_line_def strip_def isspace_def
        startswith_def endswith_def item_label_def without_size_def size_match_def
        closing_bracket_def leading_whitespace_def rstrip_slash_def no_newline_def
        ustr_def Let_def branch_def bar_def corner_def blank_def)
  show ?thesis unfolding s1 using p1 s2 p2 p3 by blast
qed

text \<open>
  C4, as the code has it. For every line that is an entry, the export appends one row;
  its path field is \<^verbatim>\<open>os.path.dirname\<close> of the reconstructed full path, and the full path
  joins the folder with the names of the path stack, cut to the depth of the line, and the
  name of the entry itself. The stack is cut to that depth before the name of the entry (as
  it stands in the line after the connector) is pushed.
\<close>

theorem csv_row_path:
  assumes "csv_entry line = Some (is_dir, pushed, item_name, size_text)"
  shows "csv_line os folder st line =
    \<lparr>csv_data = csv_data st @
       [[if is_dir then ustr ''Directory'' else ustr ''File'',
         item_name,
         dirname os (path_join os folder
           (take (leading_whitespace line div 4) (current_path st) @ [item_name])),
         size_text,
         modified os (path_join os folder
           (take (leading_whitespace line div 4) (current_path st) @ [item_name]))]],
     current_path = take (leading_whitespace line div 4) (current_path st) @ [pushed]\<rparr>"
  using assms by (simp add: csv_line_def Let_def)

theorem csv_row_path_witness:
  "csv_entry (blank @ corner @ ustr ''a.txt'') = Some (False, ustr ''a.txt'', ustr ''a.txt'', [])
   \<and> csv_line posix (ustr ''/proj'') \<lparr>csv_data = [], current_path = [ustr ''src'', ustr ''old'']\<rparr>
        (blank @ corner @ ustr ''a.txt'')
     = \<lparr>csv_data = [[ustr ''File'', ustr ''a.txt'', ustr ''/proj/src'', [], []]],
        current_path = [ustr ''src'', ustr ''a.txt'']\<rparr>"
proof -
  have e: "csv_entry (blank @ corner @ ustr ''a.txt'') = Some (False, ustr ''a.txt'', ustr ''a.txt'', [])"
    by (simp add: csv_entry_def strip_def isspace_def is_header_line_def startswith_def
        endswith_def csv_size_match_def closing_bracket_def ustr_def blank_def corner_def
        branch_def Let_def)
  show ?thesis
    unfolding csv_row_path[OF e]
    by (simp add: csv_entry_def strip_def isspace_def is_header_line_def csv_size_match_def
        closing_bracket_def leading_whitespace_def posix_def posix_dirname_def startswith_def
        endswith_def rstrip_slash_def ustr_def blank_def corner_def branch_def Let_def)
qed

text \<open>
  C4, as the claim states it, fails: for the single line of the file \<^verbatim>\<open>a.txt\<close> under the
  folder \<^verbatim>\<open>/proj\<close> the path field of the row is \<^verbatim>\<open>/proj\<close>, not the full path
  \<^verbatim>\<open>/proj/a.txt\<close> that ends with the entry itself.
\<close>

theorem csv_path_is_parent_counterexample:
  "export_csv_rows posix (ustr ''/proj'') [corner @ ustr ''a.txt'']
     = [[ustr ''Type'', ustr ''Name'', ustr ''Path'', ustr ''Size'', ustr ''Modified''],
        [ustr ''File'', ustr ''a.txt'', ustr ''/proj'', [], []]]
   \<and> path_join posix (ustr ''/proj'') ([] @ [ustr ''a.txt'']) = ustr ''/proj/a.txt''
   \<and> ustr ''/proj'' \<noteq> ustr ''/proj/a.txt''"
  by (simp add: export_csv_rows_def csv_line_def csv_entry_def strip_def isspace_def is_header_line_def
      startswith_def endswith_def csv_size_match_def closing_bracket_def leading_whitespace_def
      posix_def posix_dirname_def rstrip_slash_def
      ustr_def blank_def corner_def branch_def Let_def)

end
